theory Spec2Isabelle
  imports Complex_Main "HOL-Library.Multiset"
begin

section \<open>Value-function iteration kernels (functors.hpp, ar1.cpp)\<close>

text \<open>
  The kernels of \<^verbatim>\<open>src/Thrust-GPU/functors.hpp\<close> and the host function of
  \<^verbatim>\<open>src/Thrust/ar1.cpp\<close>, embedded over exact real arithmetic: \<^verbatim>\<open>REAL\<close> is
  \<^typ>\<open>real\<close>, so rounding, infinities and NaN of \<^verbatim>\<open>double\<close> are not represented;
  a theorem that depends on the value of a power or of the utility states the conditions
  under which the kernel's result is finite (a positive base under a negative exponent,
  a divisor \<open>1 - eta\<close> other than \<open>0\<close>).
  A C \<^verbatim>\<open>int\<close> is an \<^typ>\<open>int\<close>, with the 32-bit range written out where it matters:
  the midpoint sums of the two searches are checked against \<open>INT_MAX\<close>.
  A device array is a list, and a pointer into an array is the array paired with an offset.
  A kernel that writes through pointers returns the updated arrays.  The two
  \<^verbatim>\<open>while\<close> loops are option-valued recursive functions, where \<open>None\<close> stands for
  a loop that gives no result: it does not return, or its midpoint sum overflows.
\<close>

subsection \<open>Array access and library functions\<close>

text \<open>\<^verbatim>\<open>A[i]\<close> for an \<^verbatim>\<open>int\<close> index. C leaves an index outside the array undefined;
  the theorems below state the index ranges they rely on.\<close>

abbreviation rd :: "'a list \<Rightarrow> int \<Rightarrow> 'a" where
  "rd A i \<equiv> A ! nat i"

text \<open>\<^verbatim>\<open>*(p + i)\<close> for a pointer \<open>p = &A[off]\<close>.\<close>

fun ptr_rd :: "'a list \<times> int \<Rightarrow> int \<Rightarrow> 'a" where
  "ptr_rd (A, off) i = rd A (off + i)"

text \<open>\<^verbatim>\<open>pow\<close> of \<^verbatim>\<open>cmath\<close>. Wherever C's result is a finite number the model has that
  number: \<open>1\<close> for exponent \<open>0\<close>, the real power for a positive base, \<open>0\<close> for base \<open>0\<close>
  with a positive exponent, and the signed power of the absolute value for a negative
  base with an integral exponent. C returns \<open>+\<infinity>\<close> for base \<open>0\<close> with a negative exponent
  and NaN for a negative base with a non-integral exponent; no real number is right
  there and the model has \<open>0\<close>. The theorems that depend on the value of a power
  exclude these arguments, by their hypotheses or by their input; the others hold
  whatever \<open>pow\<close> returns.\<close>

definition pow :: "real \<Rightarrow> real \<Rightarrow> real" where
  "pow x y =
     (if y = 0 then 1
      else if 0 \<le> x then x powr y
      else if y = of_int \<lfloor>y\<rfloor> then (if even \<lfloor>y\<rfloor> then \<bar>x\<bar> powr y else - (\<bar>x\<bar> powr y))
      else 0)"

text \<open>\<^verbatim>\<open>erf\<close> of \<^verbatim>\<open>cmath\<close>: the error function, by its Maclaurin series
  \<open>2/\<surd>\<pi> \<cdot> \<Sum>n. (-1)\<^sup>n x\<^bsup>2n+1\<^esup> / (n! (2n+1))\<close>.\<close>

definition erf :: "real \<Rightarrow> real" where
  "erf x = 2 / sqrt pi * (\<Sum>n. (- 1) ^ n * x ^ (2 * n + 1) / (fact n * real (2 * n + 1)))"

text \<open>The cast \<^verbatim>\<open>(int)G[..]\<close> of a \<^verbatim>\<open>REAL\<close>: truncation towards zero.\<close>

definition c_int :: "real \<Rightarrow> int" where
  "c_int x = (if 0 \<le> x then \<lfloor>x\<rfloor> else \<lceil>x\<rceil>)"

subsection \<open>AR1 discretisation: \<^verbatim>\<open>transMat\<close> (functors.hpp) and \<^verbatim>\<open>ar1\<close> (ar1.cpp)\<close>

text \<open>The body of the \<^verbatim>\<open>for(jx = 1 ; jx < nz-1 ; ++jx)\<close> loop of
  \<^verbatim>\<open>transMat::operator()\<close>, functors.hpp lines 105-110.\<close>

definition transMat_col ::
  "int \<Rightarrow> real \<Rightarrow> real \<Rightarrow> real \<Rightarrow> real list \<Rightarrow> int \<Rightarrow> int \<Rightarrow> real list \<Rightarrow> real list" where
  "transMat_col nz mu sigma rho Z ix jx P =
     (let zstep = (ln (rd Z (nz - 1)) - ln (rd Z 0)) / real_of_int (nz - 1);
          normarg1 = (ln (rd Z jx) - mu - rho * ln (rd Z ix)) / sigma + 0.5 * zstep / sigma;
          normarg2 = (ln (rd Z jx) - mu - rho * ln (rd Z ix)) / sigma - 0.5 * zstep / sigma;
          P1 = P[nat (ix + jx * nz) :=
                 0.5 * erf (normarg1 / pow 2 0.5) - 0.5 * erf (normarg2 / pow 2 0.5)]
      in P1[nat (ix + nz * (nz - 1)) := rd P1 (ix + nz * (nz - 1)) - rd P1 (ix + jx * nz)])"

text \<open>\<^verbatim>\<open>transMat::operator()(ix)\<close>, functors.hpp lines 97-111: the kernel for origin
  index \<open>ix\<close>, returning the updated \<open>P\<close>.\<close>

definition transMat ::
  "int \<Rightarrow> real \<Rightarrow> real \<Rightarrow> real \<Rightarrow> real list \<Rightarrow> int \<Rightarrow> real list \<Rightarrow> real list" where
  "transMat nz mu sigma rho Z ix P =
     (let zstep = (ln (rd Z (nz - 1)) - ln (rd Z 0)) / real_of_int (nz - 1);
          normarg1 = (ln (rd Z 0) - mu - rho * ln (rd Z ix)) / sigma + 0.5 * zstep / sigma;
          P1 = P[nat ix := 0.5 + 0.5 * erf (normarg1 / pow 2 0.5)];
          P2 = P1[nat (ix + nz * (nz - 1)) := 1 - rd P1 ix]
      in fold (transMat_col nz mu sigma rho Z ix) [1..nz - 2] P2)"

text \<open>The body of the inner loop of \<^verbatim>\<open>ar1\<close>, ar1.cpp lines 59-64.\<close>

definition ar1_col ::
  "int \<Rightarrow> real \<Rightarrow> real \<Rightarrow> real \<Rightarrow> real \<Rightarrow> real list \<Rightarrow> int \<Rightarrow> int \<Rightarrow> real list \<Rightarrow> real list" where
  "ar1_col nz mu rho sigma zstep Z ix jx P =
     (let normarg1 = (ln (rd Z jx) - mu - rho * ln (rd Z ix)) / sigma + 0.5 * zstep / sigma;
          normarg2 = (ln (rd Z jx) - mu - rho * ln (rd Z ix)) / sigma - 0.5 * zstep / sigma;
          P1 = P[nat (ix + nz * jx) :=
                 0.5 * erf (normarg1 / sqrt 2) - 0.5 * erf (normarg2 / sqrt 2)]
      in P1[nat (ix + nz * (nz - 1)) := rd P1 (ix + nz * (nz - 1)) - rd P1 (ix + nz * jx)])"

text \<open>The body of the outer loop of \<^verbatim>\<open>ar1\<close>, ar1.cpp lines 55-65.\<close>

definition ar1_row ::
  "int \<Rightarrow> real \<Rightarrow> real \<Rightarrow> real \<Rightarrow> real \<Rightarrow> real \<Rightarrow> real list \<Rightarrow> int \<Rightarrow> real list \<Rightarrow> real list" where
  "ar1_row nz mu rho sigma zmin zstep Z ix P =
     (let normarg1 = (zmin - mu - rho * ln (rd Z ix)) / sigma + 0.5 * zstep / sigma;
          P1 = P[nat (ix * nz) := 0.5 + 0.5 * erf (normarg1 / sqrt 2)];
          P2 = P1[nat (ix + nz * (nz - 1)) := 1 - rd P1 (ix * nz)]
      in fold (ar1_col nz mu rho sigma zstep Z ix) [1..nz - 2] P2)"

text \<open>\<^verbatim>\<open>ar1(param, Z, P)\<close>, ar1.cpp lines 33-66, returning the updated \<open>(Z, P)\<close>.\<close>

definition ar1 ::
  "int \<Rightarrow> real \<Rightarrow> real \<Rightarrow> real \<Rightarrow> real \<Rightarrow> real list \<Rightarrow> real list \<Rightarrow> real list \<times> real list" where
  "ar1 nz mu rho sigma lambda Z P =
     (let sigma_z = sigma / pow (1 - pow rho 2) 0.5;
          mu_z = mu / (1 - rho);
          zmin = mu_z - lambda * sigma_z;
          zmax = mu_z + lambda * sigma_z;
          zstep = (zmax - zmin) / real_of_int (nz - 1);
          Z1 = fold (\<lambda>ix Z'. Z'[nat ix := exp (zmin + zstep * real_of_int ix)]) [0..nz - 1] Z;
          P1 = fold (ar1_row nz mu rho sigma zmin zstep Z1) [0..nz - 1] P
      in (Z1, P1))"

subsection \<open>Capital grid: \<^verbatim>\<open>kGrid\<close>\<close>

text \<open>\<^verbatim>\<open>kGrid::operator()(ix)\<close>, functors.hpp lines 142-148.\<close>

definition kGrid :: "int \<Rightarrow> int \<Rightarrow> real \<Rightarrow> real \<Rightarrow> real \<Rightarrow> real list \<Rightarrow> int \<Rightarrow> real" where
  "kGrid nk nz beta alpha delta Z ix =
     (let kmin = 0.95 * pow ((1 / (alpha * rd Z 0)) * ((1 / beta) - 1 + delta)) (1 / (alpha - 1));
          kmax = 1.05 * pow ((1 / (alpha * rd Z (nz - 1))) * ((1 / beta) - 1 + delta)) (1 / (alpha - 1));
          kstep = (kmax - kmin) / real_of_int (nk - 1)
      in kmin + kstep * real_of_int ix)"

text \<open>The deterministic steady-state capital \<open>k*(z)\<close> as the specification writes it.\<close>

definition kstar :: "real \<Rightarrow> real \<Rightarrow> real \<Rightarrow> real \<Rightarrow> real" where
  "kstar alpha beta delta z = ((1 / (alpha * z)) * (1 / beta - 1 + delta)) powr (1 / (alpha - 1))"

subsection \<open>Feasibility locator: \<^verbatim>\<open>binary_val\<close>\<close>

text \<open>The largest value of a 32-bit \<^verbatim>\<open>int\<close>.\<close>

definition INT_MAX :: int where
  "INT_MAX = 2147483647"

text \<open>The \<^verbatim>\<open>while((ihi-ilo) > 1)\<close> loop of \<^verbatim>\<open>binary_val\<close>, functors.hpp lines 304-314,
  with the final \<^verbatim>\<open>imax = ihi\<close>. The midpoint \<^verbatim>\<open>imid = (ilo + ihi)/2\<close> adds two
  \<^verbatim>\<open>int\<close>s: a sum above \<open>INT_MAX\<close> overflows, which C leaves undefined (in practice
  the midpoint turns negative and the read \<^verbatim>\<open>X[imid]\<close> leaves the array), and the
  model gives no result. Both indices are non-negative in every call, where \<^verbatim>\<open>/\<close>
  is \<open>div\<close>.\<close>

partial_function (option) binary_val_loop ::
  "real \<Rightarrow> real list \<Rightarrow> int \<Rightarrow> int \<Rightarrow> int option" where
  "binary_val_loop x X ilo ihi =
     (if ihi - ilo > 1 then
        (if ilo + ihi > INT_MAX then None
         else
           (let imid = (ilo + ihi) div 2 in
            if rd X imid = x then Some imid
            else if rd X imid > x then binary_val_loop x X ilo imid
            else binary_val_loop x X imid ihi))
      else Some ihi)"

text \<open>\<^verbatim>\<open>binary_val(x, n, X)\<close>, functors.hpp lines 285-315.\<close>

definition binary_val :: "real \<Rightarrow> int \<Rightarrow> real list \<Rightarrow> int option" where
  "binary_val x n X =
     (if x < rd X 0 then Some 0
      else if x > rd X (n - 1) then Some (n - 1)
      else binary_val_loop x X 0 (n - 1))"

subsection \<open>Bellman maximisers: \<^verbatim>\<open>grid_max\<close> and \<^verbatim>\<open>binary_max\<close>\<close>

text \<open>The expectation loop
  \<^verbatim>\<open>for(m = 0 ; m < nz ; ++m) Exp += (*(P+m*nz))*(*(V0+l+m*nk))\<close> started from
  \<^verbatim>\<open>Exp = 0.0\<close>, as it occurs in both maximisers.\<close>

definition Exp_loop :: "int \<Rightarrow> int \<Rightarrow> real list \<times> int \<Rightarrow> real list \<times> int \<Rightarrow> int \<Rightarrow> real" where
  "Exp_loop nk nz P V0 l =
     fold (\<lambda>m e. e + ptr_rd P (m * nz) * ptr_rd V0 (l + m * nk)) [0..nz - 1] 0"

text \<open>The objective at candidate offset \<open>l\<close>:
  \<^verbatim>\<open>pow(ydepK-K[klo+l],1-eta)/(1-eta) + beta*Exp\<close>.\<close>

definition bellman_w ::
  "int \<Rightarrow> int \<Rightarrow> int \<Rightarrow> real \<Rightarrow> real \<Rightarrow> real \<Rightarrow> real list \<Rightarrow> real list \<times> int \<Rightarrow> real list \<times> int
     \<Rightarrow> int \<Rightarrow> real" where
  "bellman_w klo nk nz ydepK eta beta K P V0 l =
     pow (ydepK - rd K (klo + l)) (1 - eta) / (1 - eta) + beta * Exp_loop nk nz P V0 l"

text \<open>\<^verbatim>\<open>grid_max\<close>, functors.hpp lines 343-365. The result is the pair of values stored
  through \<^verbatim>\<open>*V\<close> and \<^verbatim>\<open>*G\<close>.\<close>

definition grid_max ::
  "int \<Rightarrow> int \<Rightarrow> int \<Rightarrow> int \<Rightarrow> real \<Rightarrow> real \<Rightarrow> real \<Rightarrow> real list \<Rightarrow> real list \<times> int
     \<Rightarrow> real list \<times> int \<Rightarrow> real \<times> real" where
  "grid_max klo nksub nk nz ydepK eta beta K P V0 =
     (let w = bellman_w klo nk nz ydepK eta beta K P V0 0;
          (wmax, windmax) =
             fold (\<lambda>l (wmax, windmax).
                     let w = bellman_w klo nk nz ydepK eta beta K P V0 l
                     in if w > wmax then (w, l) else (wmax, windmax))
                  [1..nksub - 1] (w, 0)
      in (wmax, real_of_int (klo + windmax)))"

text \<open>The \<^verbatim>\<open>while(kshi-kslo > 2)\<close> loop of \<^verbatim>\<open>binary_max\<close>, functors.hpp lines
  408-420, over the objective \<open>w\<close>; it returns the final \<open>kslo\<close>, \<open>kshi\<close> and the last
  \<open>w1\<close>, \<open>w2\<close>. The midpoint \<^verbatim>\<open>ksmid1 = (kslo + kshi)/2\<close> is again a sum of two
  \<^verbatim>\<open>int\<close>s, with no result when it exceeds \<open>INT_MAX\<close>.\<close>

partial_function (option) binary_max_loop ::
  "(int \<Rightarrow> real) \<Rightarrow> int \<Rightarrow> int \<Rightarrow> real \<Rightarrow> real \<Rightarrow> (int \<times> int \<times> real \<times> real) option" where
  "binary_max_loop w kslo kshi w1 w2 =
     (if kshi - kslo > 2 then
        (if kslo + kshi > INT_MAX then None
         else
           (let ksmid1 = (kslo + kshi) div 2;
                ksmid2 = ksmid1 + 1;
                w1' = w ksmid1;
                w2' = w ksmid2
            in if w2' > w1' then binary_max_loop w ksmid1 kshi w1' w2'
               else binary_max_loop w kslo ksmid2 w1' w2'))
      else Some (kslo, kshi, w1, w2))"

text \<open>\<^verbatim>\<open>binary_max\<close>, functors.hpp lines 392-476. In the first case \<^verbatim>\<open>w1\<close> and
  \<^verbatim>\<open>w2\<close> are uninitialised before the loop, which runs at least once since
  \<^verbatim>\<open>nksub > 3\<close>; the model starts them at \<open>0\<close>.\<close>

definition binary_max ::
  "int \<Rightarrow> int \<Rightarrow> int \<Rightarrow> int \<Rightarrow> real \<Rightarrow> real \<Rightarrow> real \<Rightarrow> real list \<Rightarrow> real list \<times> int
     \<Rightarrow> real list \<times> int \<Rightarrow> (real \<times> real) option" where
  "binary_max klo nksub nk nz ydepK eta beta K P V0 =
     (let w = bellman_w klo nk nz ydepK eta beta K P V0;
          kslo = 0;
          kshi = nksub - 1
      in if nksub > 3 then
           (case binary_max_loop w kslo kshi 0 0 of
              None \<Rightarrow> None
            | Some (kslo, kshi, w1, w2) \<Rightarrow>
                if w2 > w1 then
                  (let w1 = w kshi
                   in if w2 > w1 then Some (w2, real_of_int (klo + kslo + 1))
                      else Some (w1, real_of_int (klo + kshi)))
                else
                  (let w2 = w kslo
                   in if w2 > w1 then Some (w2, real_of_int (klo + kslo))
                      else Some (w1, real_of_int (klo + kslo + 1))))
         else if nksub = 3 then
           (let w1 = w kslo;
                w2 = w (kslo + 1);
                w3 = w kshi;
                (V, G) = (w1, real_of_int (klo + kslo));
                (V, G) = (if w2 > V then (w2, real_of_int (klo + kslo + 1)) else (V, G));
                (V, G) = (if w3 > V then (w3, real_of_int (klo + kshi)) else (V, G))
            in Some (V, G))
         else
           (let w1 = w kslo;
                w2 = w kshi
            in if w2 > w1 then Some (w2, real_of_int (klo + kshi))
               else Some (w1, real_of_int (klo + kslo))))"

subsection \<open>Value-function update: \<^verbatim>\<open>vfStep\<close>\<close>

text \<open>The read-only attributes of the functor \<^verbatim>\<open>vfStep\<close>, functors.hpp lines 205-216;
  the output arrays \<^verbatim>\<open>V\<close> and \<^verbatim>\<open>G\<close> are passed and returned separately.\<close>

record vfStep_attrs =
  vf_nk :: int
  vf_nz :: int
  vf_eta :: real
  vf_beta :: real
  vf_alpha :: real
  vf_delta :: real
  vf_maxtype :: char
  vf_howard :: bool
  vf_K :: "real list"
  vf_Z :: "real list"
  vf_P :: "real list"
  vf_V0 :: "real list"

text \<open>Row and column of the flat index, lines 235-236 (\<open>hx\<close> is non-negative and
  \<open>nk\<close> positive, where C's \<^verbatim>\<open>%\<close> and \<^verbatim>\<open>/\<close> agree with \<open>mod\<close> and \<open>div\<close>).\<close>

definition vfStep_ix :: "vfStep_attrs \<Rightarrow> int \<Rightarrow> int" where
  "vfStep_ix c hx = hx mod vf_nk c"

definition vfStep_jx :: "vfStep_attrs \<Rightarrow> int \<Rightarrow> int" where
  "vfStep_jx c hx = (hx - vfStep_ix c hx) div vf_nk c"

text \<open>Output and depreciated capital, line 239.\<close>

definition vfStep_ydepK :: "vfStep_attrs \<Rightarrow> int \<Rightarrow> real" where
  "vfStep_ydepK c hx =
     rd (vf_Z c) (vfStep_jx c hx) * pow (rd (vf_K c) (vfStep_ix c hx)) (vf_alpha c)
       + (1 - vf_delta c) * rd (vf_K c) (vfStep_ix c hx)"

text \<open>The upper end of the bracket, lines 246-247:
  \<^verbatim>\<open>int khi = binary_val(ydepK, nk, &K[0]); if(K[khi] > ydepK) khi -= 1;\<close>\<close>

definition vfStep_khi :: "real \<Rightarrow> int \<Rightarrow> real list \<Rightarrow> int option" where
  "vfStep_khi ydepK nk K =
     (case binary_val ydepK nk K of
        None \<Rightarrow> None
      | Some khi \<Rightarrow> Some (if rd K khi > ydepK then khi - 1 else khi))"

text \<open>The policy-fixed branch, lines 262-264: the value stored in \<^verbatim>\<open>V[ix+jx*nk]\<close>.\<close>

definition vfStep_howard :: "vfStep_attrs \<Rightarrow> int \<Rightarrow> real list \<Rightarrow> real" where
  "vfStep_howard c hx G =
     (let ix = vfStep_ix c hx; jx = vfStep_jx c hx; nk = vf_nk c; nz = vf_nz c;
          Exp = fold (\<lambda>mx e. e + rd (vf_P c) (jx + mx * nz)
                                  * rd (vf_V0 c) (c_int (rd G (ix + jx * nk)) + mx * nk))
                     [0..nz - 1] 0
      in pow (vfStep_ydepK c hx - rd (vf_K c) (c_int (rd G (ix + jx * nk)))) (1 - vf_eta c)
           / (1 - vf_eta c) + vf_beta c * Exp)"

text \<open>\<^verbatim>\<open>vfStep::operator()(hx)\<close>, functors.hpp lines 231-266, on the output arrays
  \<open>(V, G)\<close>.\<close>

definition vfStep ::
  "vfStep_attrs \<Rightarrow> int \<Rightarrow> real list \<times> real list \<Rightarrow> (real list \<times> real list) option" where
  "vfStep c hx VG =
     (let V = fst VG; G = snd VG;
          ix = vfStep_ix c hx; jx = vfStep_jx c hx; nk = vf_nk c; nz = vf_nz c;
          ydepK = vfStep_ydepK c hx
      in if vf_howard c = False then
           (case vfStep_khi ydepK nk (vf_K c) of
              None \<Rightarrow> None
            | Some khi \<Rightarrow>
                (let klo = 0; nksub = khi - klo + 1
                 in if vf_maxtype c = CHR ''g'' then
                      (case grid_max klo nksub nk nz ydepK (vf_eta c) (vf_beta c) (vf_K c)
                              (vf_P c, jx) (vf_V0 c, klo) of
                         (v, g) \<Rightarrow> Some (V[nat (ix + jx * nk) := v], G[nat (ix + jx * nk) := g]))
                    else if vf_maxtype c = CHR ''b'' then
                      (case binary_max klo nksub nk nz ydepK (vf_eta c) (vf_beta c) (vf_K c)
                              (vf_P c, jx) (vf_V0 c, klo) of
                         None \<Rightarrow> None
                       | Some (v, g) \<Rightarrow>
                           Some (V[nat (ix + jx * nk) := v], G[nat (ix + jx * nk) := g]))
                    else Some (V, G)))
         else Some (V[nat (ix + jx * nk) := vfStep_howard c hx G], G))"

subsection \<open>The Bellman objective and example configurations\<close>

text \<open>The objective of the specification at state \<open>hx\<close> and candidate \<open>k'\<close>:
  \<open>u(ydepK - K[k']) + beta \<cdot> \<Sum>z'. P[j,z'] \<cdot> V0[k',z']\<close> with \<open>u(c) = c\<^bsup>1-eta\<^esup>/(1-eta)\<close>,
  where \<open>V0[k',z']\<close> is the cell \<open>k' + z'\<cdot>nk\<close> and \<open>P[j,z']\<close> the cell \<open>j + z'\<cdot>nz\<close>.\<close>

definition bellman_objective :: "vfStep_attrs \<Rightarrow> int \<Rightarrow> int \<Rightarrow> real" where
  "bellman_objective c hx k' =
     pow (vfStep_ydepK c hx - rd (vf_K c) k') (1 - vf_eta c) / (1 - vf_eta c)
       + vf_beta c * (\<Sum>z' = 0..vf_nz c - 1.
           rd (vf_P c) (vfStep_jx c hx + z' * vf_nz c) * rd (vf_V0 c) (k' + z' * vf_nk c))"

text \<open>A configuration with two capital points and one productivity point; at state \<open>0\<close>
  the resources are \<open>ydepK = 3\<close> and both capital points are feasible.\<close>

definition cfg_small :: vfStep_attrs where
  "cfg_small = \<lparr>vf_nk = 2, vf_nz = 1, vf_eta = 2, vf_beta = 1 / 2, vf_alpha = 1 / 2,
      vf_delta = 1, vf_maxtype = CHR ''g'', vf_howard = False,
      vf_K = [1, 2], vf_Z = [3], vf_P = [1], vf_V0 = [0, 3]\<rparr>"

text \<open>A configuration whose capital grid is the one \<^verbatim>\<open>kGrid\<close> builds, with three capital
  points and two productivity points.\<close>

definition cfg_grid :: vfStep_attrs where
  "cfg_grid = \<lparr>vf_nk = 3, vf_nz = 2, vf_eta = 2, vf_beta = 1 / 2, vf_alpha = 1 / 2,
      vf_delta = 1, vf_maxtype = CHR ''g'', vf_howard = False,
      vf_K = map (kGrid 3 2 (1 / 2) (1 / 2) 1 [1, 2]) [0..2], vf_Z = [1, 2],
      vf_P = [1 / 2, 1 / 2, 1 / 2, 1 / 2], vf_V0 = [0, 0, 0, 0, 0, 0]\<rparr>"

subsection \<open>One pass over a list of states\<close>

text \<open>The dispatch of \<^verbatim>\<open>vfStep\<close> over the states (a \<^verbatim>\<open>thrust::for_each\<close> in the
  driver, which is outside the sources given): the kernel is applied to the flat indices
  in the order of the list.\<close>

definition vfPass ::
  "vfStep_attrs \<Rightarrow> int list \<Rightarrow> real list \<times> real list \<Rightarrow> (real list \<times> real list) option" where
  "vfPass c hxs VG = fold (\<lambda>hx s. Option.bind s (vfStep c hx)) hxs (Some VG)"

subsection \<open>Tauchen's transition probabilities\<close>

text \<open>The probabilities of the specification (section 4.1), for comparison with what
  \<^verbatim>\<open>transMat\<close> stores: \<open>norm_cdf\<close> is the standard normal distribution function;
  \<open>tauchen_edge \<dots> i j s\<close> is the standardised distance from the conditional mean
  \<open>mu + rho \<cdot> log Z[i]\<close> to the log-grid point \<open>j\<close> shifted by \<open>s\<close> grid steps; an
  interior column is the difference of the distribution function at the two midpoints
  around the grid point, column \<open>0\<close> takes the lower tail, and the last column is one
  minus the sum of the other columns.\<close>

definition norm_cdf :: "real \<Rightarrow> real" where
  "norm_cdf x = 0.5 + 0.5 * erf (x / sqrt 2)"

definition tauchen_edge :: "int \<Rightarrow> real \<Rightarrow> real \<Rightarrow> real \<Rightarrow> real list \<Rightarrow> int \<Rightarrow> int \<Rightarrow> real \<Rightarrow> real" where
  "tauchen_edge nz mu sigma rho Z i j s =
     (ln (rd Z j) - mu - rho * ln (rd Z i)) / sigma
       + s * ((ln (rd Z (nz - 1)) - ln (rd Z 0)) / real_of_int (nz - 1)) / sigma"

definition tauchen_prob :: "int \<Rightarrow> real \<Rightarrow> real \<Rightarrow> real \<Rightarrow> real list \<Rightarrow> int \<Rightarrow> int \<Rightarrow> real" where
  "tauchen_prob nz mu sigma rho Z i j =
     (if j = 0 then norm_cdf (tauchen_edge nz mu sigma rho Z i 0 0.5)
      else if j = nz - 1 then
        1 - (norm_cdf (tauchen_edge nz mu sigma rho Z i 0 0.5)
             + (\<Sum>j' = 1..nz - 2. norm_cdf (tauchen_edge nz mu sigma rho Z i j' 0.5)
                                   - norm_cdf (tauchen_edge nz mu sigma rho Z i j' (- 0.5))))
      else norm_cdf (tauchen_edge nz mu sigma rho Z i j 0.5)
           - norm_cdf (tauchen_edge nz mu sigma rho Z i j (- 0.5)))"

text \<open>The discretiser on the device: the kernel \<^verbatim>\<open>transMat\<close> applied to every origin
  index \<open>0, \<dots>, nz - 1\<close> (the dispatch is in the driver, outside the sources given).\<close>

definition transMat_all ::
  "int \<Rightarrow> real \<Rightarrow> real \<Rightarrow> real \<Rightarrow> real list \<Rightarrow> real list \<Rightarrow> real list" where
  "transMat_all nz mu sigma rho Z P = fold (transMat nz mu sigma rho Z) [0..nz - 1] P"

text \<open>A configuration with one capital point and two productivity points, whose \<open>P\<close> is
  the discretiser's output for \<open>mu = 0\<close>, \<open>sigma = 1\<close>, \<open>rho = 0\<close>.\<close>

definition cfg_two :: vfStep_attrs where
  "cfg_two = \<lparr>vf_nk = 1, vf_nz = 2, vf_eta = 2, vf_beta = 1 / 2, vf_alpha = 1 / 2,
      vf_delta = 1, vf_maxtype = CHR ''g'', vf_howard = True,
      vf_K = [1], vf_Z = [exp (- 3), exp 3],
      vf_P = transMat_all 2 0 1 0 [exp (- 3), exp 3] [9, 9, 9, 9], vf_V0 = [0, 1]\<rparr>"

subsection \<open>Concave sequences\<close>

text \<open>A sequence \<open>w 0, \<dots>, w (n - 1)\<close> is concave when its increments do not increase,
  strictly concave when they decrease.\<close>

definition concave_seq :: "(int \<Rightarrow> real) \<Rightarrow> int \<Rightarrow> bool" where
  "concave_seq w n = (\<forall>l\<in>{1..n - 2}. w (l + 1) - w l \<le> w l - w (l - 1))"

definition strictly_concave_seq :: "(int \<Rightarrow> real) \<Rightarrow> int \<Rightarrow> bool" where
  "strictly_concave_seq w n = (\<forall>l\<in>{1..n - 2}. w (l + 1) - w l < w l - w (l - 1))"

text \<open>A configuration with four capital points and the strictly concave value function
  \<open>V0 = [1/2, 14/3, 7, 8]\<close>; at state \<open>3\<close> the resources are \<open>ydepK = 5\<close>, all four
  points are feasible, and the objective takes the values \<open>0, 2, 3, 3\<close>.\<close>

definition cfg_tie :: vfStep_attrs where
  "cfg_tie = \<lparr>vf_nk = 4, vf_nz = 1, vf_eta = 2, vf_beta = 1 / 2, vf_alpha = 1 / 2,
      vf_delta = 1, vf_maxtype = CHR ''b'', vf_howard = False,
      vf_K = [1, 2, 3, 4], vf_Z = [5 / 2], vf_P = [1], vf_V0 = [1 / 2, 14 / 3, 7, 8]\<rparr>"

section \<open>Termination of the two search loops\<close>

lemma pow_pos: "0 < x \<Longrightarrow> pow x y = x powr y"
  by (simp add: pow_def)

lemma pow_nonneg: "0 \<le> x \<Longrightarrow> y \<noteq> 0 \<Longrightarrow> pow x y = x powr y"
  by (simp add: pow_def)

text \<open>While the midpoint sum stays within \<open>INT_MAX\<close>, as it does below \<open>2\<^sup>3\<^sup>0\<close>, one
  pass of the loop of \<^verbatim>\<open>binary_val\<close> is the body of the source; a loop that returned
  a result has not overflowed.\<close>

lemma binary_val_loop_step0:
  assumes "ihi - ilo > 1" "ilo + ihi \<le> INT_MAX"
  shows "binary_val_loop x X ilo ihi =
     (let imid = (ilo + ihi) div 2 in
      if rd X imid = x then Some imid
      else if rd X imid > x then binary_val_loop x X ilo imid
      else binary_val_loop x X imid ihi)"
  using assms by (rule_tac trans[OF binary_val_loop.simps]) simp

lemma binary_val_loop_step:
  assumes "ihi - ilo > 1" "ihi < 2 ^ 30"
  shows "binary_val_loop x X ilo ihi =
     (let imid = (ilo + ihi) div 2 in
      if rd X imid = x then Some imid
      else if rd X imid > x then binary_val_loop x X ilo imid
      else binary_val_loop x X imid ihi)"
proof -
  from assms have "ilo + ihi \<le> INT_MAX" by (simp add: INT_MAX_def)
  from binary_val_loop_step0[OF assms(1) this] show ?thesis .
qed

lemma binary_val_loop_no_overflow:
  assumes "binary_val_loop x X ilo ihi = Some i" "ihi - ilo > 1"
  shows "ilo + ihi \<le> INT_MAX"
proof (rule ccontr)
  assume "\<not> ilo + ihi \<le> INT_MAX"
  with assms(2) have "binary_val_loop x X ilo ihi = None"
    by (rule_tac trans[OF binary_val_loop.simps]) simp
  with assms(1) show False by simp
qed

lemma binary_val_loop_stop: "\<not> ihi - ilo > 1 \<Longrightarrow> binary_val_loop x X ilo ihi = Some ihi"
  by (subst binary_val_loop.simps) simp

text \<open>Each iteration of the loop of \<^verbatim>\<open>binary_val\<close> replaces \<open>ilo\<close> or \<open>ihi\<close> by
  the midpoint, which lies strictly between them while \<open>ihi - ilo > 1\<close>; so \<open>ihi - ilo\<close>
  decreases and the loop returns.\<close>

lemma binary_val_loop_returns:
  assumes "ihi < 2 ^ 30"
  shows "\<exists>i. binary_val_loop x X ilo ihi = Some i"
  using assms
proof (induction "nat (ihi - ilo)" arbitrary: ilo ihi rule: less_induct)
  case less
  show ?case
  proof (cases "ihi - ilo > 1")
    case False
    then show ?thesis by (simp add: binary_val_loop_stop)
  next
    case True
    let ?imid = "(ilo + ihi) div 2"
    from True have lt1: "nat (?imid - ilo) < nat (ihi - ilo)"
      and lt2: "nat (ihi - ?imid) < nat (ihi - ilo)"
      and b: "?imid < ihi" by linarith+
    from b less.prems have "?imid < 2 ^ 30" by linarith
    from less.hyps[OF lt1 this] less.hyps[OF lt2 less.prems] show ?thesis
      by (simp add: binary_val_loop_step[OF True less.prems] Let_def)
  qed
qed

lemma binary_val_returns:
  assumes "n \<le> 2 ^ 30"
  shows "\<exists>i. binary_val x n X = Some i"
proof -
  from assms have "n - 1 < 2 ^ 30" by simp
  from binary_val_loop_returns[OF this] show ?thesis
    unfolding binary_val_def by simp
qed

text \<open>The loop of \<^verbatim>\<open>binary_max\<close> keeps \<open>[ksmid1, kshi]\<close> or \<open>[kslo, ksmid1 + 1]\<close>,
  both strictly shorter than \<open>[kslo, kshi]\<close> while \<open>kshi - kslo > 2\<close>.\<close>

lemma binary_max_loop_step0:
  assumes "kshi - kslo > 2" "kslo + kshi \<le> INT_MAX"
  shows "binary_max_loop w kslo kshi w1 w2 =
     (let ksmid1 = (kslo + kshi) div 2; ksmid2 = ksmid1 + 1; w1' = w ksmid1; w2' = w ksmid2
      in if w2' > w1' then binary_max_loop w ksmid1 kshi w1' w2'
         else binary_max_loop w kslo ksmid2 w1' w2')"
  using assms by (rule_tac trans[OF binary_max_loop.simps]) simp

lemma binary_max_loop_step:
  assumes "kshi - kslo > 2" "kshi < 2 ^ 30"
  shows "binary_max_loop w kslo kshi w1 w2 =
     (let ksmid1 = (kslo + kshi) div 2; ksmid2 = ksmid1 + 1; w1' = w ksmid1; w2' = w ksmid2
      in if w2' > w1' then binary_max_loop w ksmid1 kshi w1' w2'
         else binary_max_loop w kslo ksmid2 w1' w2')"
proof -
  from assms have "kslo + kshi \<le> INT_MAX" by (simp add: INT_MAX_def)
  from binary_max_loop_step0[OF assms(1) this] show ?thesis .
qed

lemma binary_max_loop_no_overflow:
  assumes "binary_max_loop w kslo kshi w1 w2 = Some r" "kshi - kslo > 2"
  shows "kslo + kshi \<le> INT_MAX"
proof (rule ccontr)
  assume "\<not> kslo + kshi \<le> INT_MAX"
  with assms(2) have "binary_max_loop w kslo kshi w1 w2 = None"
    by (rule_tac trans[OF binary_max_loop.simps]) simp
  with assms(1) show False by simp
qed

lemma binary_max_loop_stop:
  "\<not> kshi - kslo > 2 \<Longrightarrow> binary_max_loop w kslo kshi w1 w2 = Some (kslo, kshi, w1, w2)"
  by (subst binary_max_loop.simps) simp

lemma binary_max_loop_returns:
  assumes "kshi < 2 ^ 30"
  shows "\<exists>r. binary_max_loop w kslo kshi w1 w2 = Some r"
  using assms
proof (induction "nat (kshi - kslo)" arbitrary: kslo kshi w1 w2 rule: less_induct)
  case less
  show ?case
  proof (cases "kshi - kslo > 2")
    case False
    then show ?thesis by (simp add: binary_max_loop_stop)
  next
    case True
    let ?m = "(kslo + kshi) div 2"
    from True have lt1: "nat (kshi - ?m) < nat (kshi - kslo)"
      and lt2: "nat (?m + 1 - kslo) < nat (kshi - kslo)"
      and b: "?m + 1 < kshi" by linarith+
    from b less.prems have "?m + 1 < 2 ^ 30" by linarith
    from less.hyps[OF lt1 less.prems] less.hyps[OF lt2 this] show ?thesis
      by (simp add: binary_max_loop_step[OF True less.prems] Let_def)
  qed
qed

lemma binary_max_returns:
  assumes "nksub \<le> 2 ^ 30"
  shows "\<exists>r. binary_max klo nksub nk nz ydepK eta beta K P V0 = Some r"
proof -
  from assms have "nksub - 1 < 2 ^ 30" by simp
  from binary_max_loop_returns[OF this] obtain a b c d where
    "binary_max_loop (bellman_w klo nk nz ydepK eta beta K P V0) 0 (nksub - 1) 0 0
       = Some (a, b, c, d)"
    by (metis prod_cases4)
  then show ?thesis
    unfolding binary_max_def by (simp add: Let_def split: prod.splits)
qed

text \<open>Claim C10, amended by the sizes whose midpoint sums fit an \<^verbatim>\<open>int\<close>.
  \<^verbatim>\<open>binary_val\<close> returns a result for every size \<open>1 \<le> n \<le> 2\<^sup>3\<^sup>0\<close> and \<^verbatim>\<open>binary_max\<close>
  for every bracket size \<open>1 \<le> nksub \<le> 2\<^sup>3\<^sup>0\<close>, whatever the arrays hold: in the model
  a loop that did not terminate, or whose midpoint sum overflowed, would give \<open>None\<close>.\<close>

theorem search_loops_terminate:
  assumes "1 \<le> n" "n \<le> 2 ^ 30" "1 \<le> nksub" "nksub \<le> 2 ^ 30"
  shows "(\<exists>i. binary_val x n X = Some i) \<and>
   (\<exists>V G. binary_max klo nksub nk nz ydepK eta beta K P V0 = Some (V, G))"
  using binary_val_returns [OF assms(2), of x X]
    binary_max_returns [OF assms(4), of klo nk nz ydepK eta beta K P V0] by auto

theorem search_loops_terminate_witness:
  "(1::int) \<le> 5 \<and> (5::int) \<le> 2 ^ 30 \<and> (1::int) \<le> 4 \<and> (4::int) \<le> 2 ^ 30 \<and>
   (\<exists>i. binary_val (7 / 2) 5 [1, 2, 3, 4, 5] = Some i) \<and>
   (\<exists>V G. binary_max 0 4 4 1 5 2 (1 / 2) [1, 2, 3, 4] ([1], 0) ([1 / 2, 14 / 3, 7, 8], 0)
            = Some (V, G))"
  using search_loops_terminate [where n = 5 and nksub = 4 and x = "7 / 2"
      and X = "[1, 2, 3, 4, 5]" and klo = 0 and nk = 4 and nz = 1 and ydepK = 5 and eta = 2
      and beta = "1 / 2" and K = "[1, 2, 3, 4]" and P = "([1], 0)"
      and ?V0.0 = "([1 / 2, 14 / 3, 7, 8], 0)"]
  by simp

text \<open>Claim C10 as stated, for every \<open>n \<ge> 1\<close>, fails at \<open>n = 2147483647\<close> with \<open>X\<close> of
  that length, zero except for a last entry \<open>1\<close>, and \<open>x = 1/2\<close>: neither bounds check
  fires, the first midpoint is \<open>1073741823\<close>, the entry there is below \<open>x\<close>, so \<open>ilo\<close> becomes
  \<open>1073741823\<close>, and the next midpoint sum \<open>1073741823 + 2147483646\<close> exceeds
  \<open>INT_MAX\<close>: the addition overflows and \<^verbatim>\<open>binary_val\<close> gives no result.\<close>

theorem binary_val_overflow_counterexample:
  "binary_val (1 / 2) 2147483647 (replicate 2147483646 0 @ [1]) = None"
proof -
  let ?X = "replicate 2147483646 (0::real) @ [1]"
  have x0: "?X ! 0 = 0"
    by (subst nth_append) (simp del: replicate.simps)
  have xm: "?X ! 1073741823 = 0"
    by (subst nth_append) (simp del: replicate.simps)
  have xn: "?X ! 2147483646 = 1"
    by (subst nth_append) (simp del: replicate.simps)
  have l2: "binary_val_loop (1 / 2) ?X 1073741823 2147483646 = None"
    by (subst binary_val_loop.simps) (simp add: INT_MAX_def)
  have "binary_val_loop (1 / 2) ?X 0 2147483646 = None"
    by (subst binary_val_loop.simps) (simp add: INT_MAX_def Let_def xm l2 del: replicate.simps)
  then show ?thesis
    using x0 xn by (simp add: binary_val_def del: replicate.simps)
qed

section \<open>The feasibility locator\<close>

text \<open>On a strictly increasing grid, for \<open>X[0] < x \<le> X[n-1]\<close>, \<^verbatim>\<open>binary_val\<close> returns the
  index \<open>i\<close> with \<open>X[i-1] < x \<le> X[i]\<close>, the smallest one whose entry is at least \<open>x\<close>;
  outside the grid it clamps to \<open>0\<close> and \<open>n - 1\<close>.\<close>

lemma strict_rd_mono:
  assumes "sorted_wrt (<) X" "0 \<le> i" "i < j" "j < int (length X)"
  shows "rd X i < rd X (j::int)"
proof -
  from assms(2-4) have "nat i < nat j" "nat j < length X" by linarith+
  from sorted_wrt_nth_less[OF assms(1) this] show ?thesis .
qed

lemma binary_val_loop_strict:
  assumes "sorted_wrt (<) X" "0 \<le> ilo" "ihi < int (length X)"
    "rd X ilo < x" "x \<le> rd X ihi" "ilo \<le> ihi" "ihi < 2 ^ 30"
  shows "\<exists>i. binary_val_loop x X ilo ihi = Some i \<and> ilo < i \<and> i \<le> ihi \<and>
           rd X (i - 1) < x \<and> x \<le> rd X i"
  using assms(2-7)
proof (induction "nat (ihi - ilo)" arbitrary: ilo ihi rule: less_induct)
  case less
  show ?case
  proof (cases "ihi - ilo > 1")
    case False
    have "ihi \<noteq> ilo" using less.prems(3,4) by auto
    with False less.prems(5) have "ihi = ilo + 1" by linarith
    with False less.prems show ?thesis
      by (simp add: binary_val_loop_stop)
  next
    case True
    let ?imid = "(ilo + ihi) div 2"
    note step = binary_val_loop_step[OF True less.prems(6), of x X]
    from True have lt1: "nat (?imid - ilo) < nat (ihi - ilo)"
      and lt2: "nat (ihi - ?imid) < nat (ihi - ilo)"
      and b: "ilo < ?imid" "?imid < ihi" by linarith+
    consider (eq) "rd X ?imid = x" | (gt) "rd X ?imid > x" | (lt) "rd X ?imid < x"
      by linarith
    then show ?thesis
    proof cases
      case eq
      from b less.prems(1,2) have "0 \<le> ?imid - 1" "?imid - 1 < ?imid" "?imid < int (length X)"
        by linarith+
      from strict_rd_mono[OF assms(1) this] eq have "rd X (?imid - 1) < x" by simp
      with b eq show ?thesis
        by (simp add: step Let_def)
    next
      case gt
      from b less.prems have r: "0 \<le> ilo" "?imid < int (length X)" "ilo \<le> ?imid"
        "?imid < 2 ^ 30" by linarith+
      from less.hyps[OF lt1 r(1,2) less.prems(3) _ r(3,4)] gt
      obtain i where "binary_val_loop x X ilo ?imid = Some i" "ilo < i" "i \<le> ?imid"
        "rd X (i - 1) < x" "x \<le> rd X i" by force
      with gt b show ?thesis
        by (auto simp add: step Let_def)
    next
      case lt
      from b less.prems have r: "0 \<le> ?imid" "?imid \<le> ihi" by linarith+
      from less.hyps[OF lt2 r(1) less.prems(2) lt less.prems(4) r(2) less.prems(6)]
      obtain i where "binary_val_loop x X ?imid ihi = Some i" "?imid < i" "i \<le> ihi"
        "rd X (i - 1) < x" "x \<le> rd X i" by force
      with lt b show ?thesis
        by (auto simp add: step Let_def)
    qed
  qed
qed

lemma binary_val_above_first:
  assumes "sorted_wrt (<) X" "length X = nat n" "1 \<le> n" "rd X 0 < x" "x \<le> rd X (n - 1)"
    "n \<le> 2 ^ 30"
  shows "\<exists>i. binary_val x n X = Some i \<and> 0 < i \<and> i \<le> n - 1 \<and>
           rd X (i - 1) < x \<and> x \<le> rd X i \<and>
           (\<forall>j. 0 \<le> j \<and> j < i \<longrightarrow> rd X j < x)"
proof -
  from assms(2,3,6) have "n - 1 < int (length X)" "(0::int) \<le> n - 1" "n - 1 < 2 ^ 30"
    by simp_all
  from binary_val_loop_strict[OF assms(1) _ this(1) assms(4,5) this(2,3)]
  obtain i where i: "binary_val_loop x X 0 (n - 1) = Some i" "0 < i" "i \<le> n - 1"
    "rd X (i - 1) < x" "x \<le> rd X i" by auto
  have "rd X j < x" if "0 \<le> j" "j < i" for j
  proof (cases "j = i - 1")
    case True
    with i(4) show ?thesis by simp
  next
    case False
    with that i(3) assms(2) have "j < i - 1" "i - 1 < int (length X)" by linarith+
    from strict_rd_mono[OF assms(1) that(1) this] i(4) show ?thesis by simp
  qed
  moreover have "binary_val x n X = Some i"
    using assms(4,5) i(1) by (simp add: binary_val_def)
  ultimately show ?thesis using i by blast
qed

lemma binary_val_clamps:
  "x < rd X 0 \<Longrightarrow> binary_val x n X = Some 0"
  "rd X 0 \<le> x \<Longrightarrow> rd X (n - 1) < x \<Longrightarrow> binary_val x n X = Some (n - 1)"
  by (simp_all add: binary_val_def)

text \<open>At \<open>x = X[0]\<close>, on a strictly increasing grid of at least two points, every
  midpoint lies above \<open>x\<close>, the loop narrows to \<open>ilo = 0\<close>, \<open>ihi = 1\<close>, and the result
  is \<open>1\<close>.\<close>

lemma binary_val_at_first:
  assumes "sorted_wrt (<) X" "length X = nat n" "2 \<le> n" "x = rd X 0" "n \<le> 2 ^ 30"
  shows "binary_val x n X = Some 1"
proof -
  have loop: "binary_val_loop x X 0 ihi = Some 1" if "1 \<le> ihi" "ihi \<le> n - 1" for ihi
    using that
  proof (induction "nat ihi" arbitrary: ihi rule: less_induct)
    case less
    show ?case
    proof (cases "ihi > 1")
      case False
      with less.prems have "ihi = 1" by simp
      then show ?thesis by (simp add: binary_val_loop_stop)
    next
      case True
      let ?imid = "(0 + ihi) div 2"
      from True have b: "1 \<le> ?imid" "?imid < ihi" "nat ?imid < nat ihi" by linarith+
      from less.prems assms(5) have bnd: "ihi < 2 ^ 30" by simp
      from True have d: "ihi - 0 > 1" by simp
      from b less.prems assms(2) have "(0::int) \<le> 0" "0 < ?imid" "?imid < int (length X)"
        by linarith+
      from strict_rd_mono[OF assms(1) this] assms(4) have gt: "rd X ?imid > x" by simp
      from less.hyps[OF b(3) b(1)] b less.prems
      have "binary_val_loop x X 0 ?imid = Some 1" by simp
      with gt show ?thesis
        by (simp add: binary_val_loop_step[OF d bnd] Let_def)
    qed
  qed
  from assms(2,3) have "(0::int) \<le> 0" "0 < n - 1" "n - 1 < int (length X)" by linarith+
  from strict_rd_mono[OF assms(1) this] assms(4) have "\<not> x > rd X (n - 1)" by simp
  with assms(3,4) loop[of "n - 1"] show ?thesis by (simp add: binary_val_def)
qed

text \<open>Claim C2, at the input where the code departs from it. For \<open>X = [1, 2]\<close> and
  \<open>x = 1 = X[0]\<close> neither bounds check fires, the loop is not entered since
  \<open>ihi - ilo = 1\<close>, and \<^verbatim>\<open>binary_val\<close> returns \<open>ihi = 1\<close>; the smallest index \<open>i\<close>
  with \<open>X[i] \<ge> x\<close> is \<open>0\<close>.\<close>

theorem binary_val_at_first_entry: "binary_val 1 2 [1, 2] = Some 1"
  by (simp add: binary_val_def binary_val_loop.simps)


text \<open>Whatever the array holds, a result of \<^verbatim>\<open>binary_val\<close> is at most \<open>n - 1\<close> (at most
  \<open>0\<close> when \<open>n < 1\<close>).\<close>

lemma binary_val_loop_le:
  assumes "binary_val_loop x X ilo ihi = Some i"
  shows "i \<le> ihi"
  using assms
proof (induction "nat (ihi - ilo)" arbitrary: ilo ihi rule: less_induct)
  case less
  show ?case
  proof (cases "ihi - ilo > 1")
    case False
    with less.prems show ?thesis by (simp add: binary_val_loop_stop)
  next
    case True
    let ?imid = "(ilo + ihi) div 2"
    from True have lt1: "nat (?imid - ilo) < nat (ihi - ilo)"
      and lt2: "nat (ihi - ?imid) < nat (ihi - ilo)"
      and b: "ilo < ?imid" "?imid < ihi" by linarith+
    note step = binary_val_loop_step0[OF True binary_val_loop_no_overflow[OF less.prems True],
        of x X]
    from less.prems have
      "(if rd X ?imid = x then Some ?imid
        else if rd X ?imid > x then binary_val_loop x X ilo ?imid
        else binary_val_loop x X ?imid ihi) = Some i"
      unfolding step Let_def .
    then consider "i = ?imid" | "binary_val_loop x X ilo ?imid = Some i"
      | "binary_val_loop x X ?imid ihi = Some i"
      by (cases "rd X ?imid = x"; cases "rd X ?imid > x") simp_all
    then show ?thesis
    proof cases
      case 1
      with b show ?thesis by simp
    next
      case 2
      from less.hyps[OF lt1 2] b show ?thesis by simp
    next
      case 3
      from less.hyps[OF lt2 3] show ?thesis .
    qed
  qed
qed

lemma binary_val_le:
  assumes "binary_val x n X = Some i"
  shows "i \<le> max 0 (n - 1)"
  using assms binary_val_loop_le[of x X 0 "n - 1" i]
  by (auto simp add: binary_val_def split: if_splits)

lemma vfStep_khi_le:
  assumes "vfStep_khi ydepK nk K = Some khi"
  shows "khi \<le> max 0 (nk - 1)"
proof -
  from assms obtain i where i: "binary_val ydepK nk K = Some i" "khi = i \<or> khi = i - 1"
    by (auto simp add: vfStep_khi_def split: option.splits if_splits)
  from binary_val_le[OF i(1)] i(2) show ?thesis by auto
qed

text \<open>The bracket of \<^verbatim>\<open>vfStep\<close> on a strictly increasing grid whose first point is
  within the resources \<open>y\<close>: the decremented locator result \<open>khi\<close> is the greatest index
  whose capital is within the resources, so the indices \<open>0, \<dots>, khi\<close> are exactly the
  feasible ones.\<close>

lemma vfStep_khi_greatest:
  assumes "sorted_wrt (<) K" "length K = nat nk" "1 \<le> nk" "nk \<le> 2 ^ 30" "rd K 0 \<le> y"
  shows "\<exists>khi. vfStep_khi y nk K = Some khi \<and> 0 \<le> khi \<and> khi \<le> nk - 1 \<and>
           (\<forall>k'. 0 \<le> k' \<and> k' \<le> khi \<longrightarrow> rd K k' \<le> y) \<and>
           (\<forall>k'. khi < k' \<and> k' \<le> nk - 1 \<longrightarrow> y < rd K k')"
proof -
  have mono: "rd K i \<le> rd K j" if "0 \<le> i" "i \<le> j" "j \<le> nk - 1" for i j
  proof (cases "i = j")
    case False
    with that assms(2) have "i < j" "j < int (length K)" by linarith+
    from strict_rd_mono[OF assms(1) that(1) this] show ?thesis by simp
  qed simp
  have smono: "rd K i < rd K j" if "0 \<le> i" "i < j" "j \<le> nk - 1" for i j
  proof -
    from that assms(2) have "j < int (length K)" by linarith
    from strict_rd_mono[OF assms(1) that(1,2) this] show ?thesis .
  qed
  have main: "\<exists>khi. vfStep_khi y nk K = Some khi \<and> 0 \<le> khi \<and> khi \<le> nk - 1 \<and>
      rd K khi \<le> y \<and> (\<forall>k'. khi < k' \<and> k' \<le> nk - 1 \<longrightarrow> y < rd K k')"
  proof -
    consider (above) "rd K (nk - 1) < y"
      | (first) "y \<le> rd K (nk - 1)" "y = rd K 0"
      | (inside) "y \<le> rd K (nk - 1)" "rd K 0 < y"
      using assms(5) by linarith
    then show ?thesis
    proof cases
      case above
      with assms(5) have "binary_val y nk K = Some (nk - 1)" by (simp add: binary_val_clamps)
      with above assms(3) show ?thesis by (simp add: vfStep_khi_def)
    next
      case first
      show ?thesis
      proof (cases "nk = 1")
        case True
        with first have "binary_val y nk K = Some 0"
          by (simp add: binary_val_def binary_val_loop_stop)
        with first True show ?thesis by (simp add: vfStep_khi_def)
      next
        case False
        with assms(3) have n2: "2 \<le> nk" by simp
        from binary_val_at_first[OF assms(1,2) n2 first(2) assms(4)]
        have bv: "binary_val y nk K = Some 1" .
        from smono[of 0 1] n2 first(2) have "rd K 1 > y" by simp
        with bv have "vfStep_khi y nk K = Some 0" by (simp add: vfStep_khi_def)
        moreover have "y < rd K k'" if "0 < k'" "k' \<le> nk - 1" for k'
          using smono[of 0 k'] that first(2) by simp
        ultimately show ?thesis using first(2) assms(3) by simp
      qed
    next
      case inside
      from binary_val_above_first[OF assms(1,2,3) inside(2,1) assms(4)]
      obtain i where i: "binary_val y nk K = Some i" "0 < i" "i \<le> nk - 1"
        "rd K (i - 1) < y" "y \<le> rd K i" by blast
      show ?thesis
      proof (cases "rd K i > y")
        case True
        with i(1) have "vfStep_khi y nk K = Some (i - 1)" by (simp add: vfStep_khi_def)
        moreover have "y < rd K k'" if "i - 1 < k'" "k' \<le> nk - 1" for k'
          using mono[of i k'] that i(2) True by simp
        ultimately show ?thesis using i by simp
      next
        case False
        with i(5) have e: "rd K i = y" by simp
        with i(1) have "vfStep_khi y nk K = Some i" by (simp add: vfStep_khi_def)
        moreover have "y < rd K k'" if "i < k'" "k' \<le> nk - 1" for k'
          using smono[of i k'] that i(2) e by simp
        ultimately show ?thesis using i e by simp
      qed
    qed
  qed
  then obtain khi where k: "vfStep_khi y nk K = Some khi" "0 \<le> khi" "khi \<le> nk - 1"
    "rd K khi \<le> y" "\<forall>k'. khi < k' \<and> k' \<le> nk - 1 \<longrightarrow> y < rd K k'" by blast
  have "rd K k' \<le> y" if "0 \<le> k'" "k' \<le> khi" for k'
    using mono[of k' khi] that k(3,4) by simp
  with k show ?thesis by blast
qed

lemma ydepK_small: "vfStep_ydepK cfg_small 0 = 3"
  by (simp add: vfStep_ydepK_def vfStep_ix_def vfStep_jx_def cfg_small_def pow_def)

lemma khi_small:
  "vfStep_khi (vfStep_ydepK cfg_small 0) (vf_nk cfg_small) (vf_K cfg_small) = Some 1"
  by (simp add: ydepK_small) (simp add: cfg_small_def vfStep_khi_def binary_val_def)

section \<open>The grid-search maximiser\<close>

lemma fold_add_sum_list: "fold (\<lambda>m e. e + f m) xs (a::real) = a + sum_list (map f xs)"
  by (induction xs arbitrary: a) simp_all

lemma fold_add_upto: "fold (\<lambda>m e. e + f m) [i..j] (a::real) = a + (\<Sum>m = i..j. f m)"
  by (simp add: fold_add_sum_list interv_sum_list_conv_sum_set_int)

lemma Exp_loop_sum:
  "Exp_loop nk nz (P, jx) (V0, klo) l
     = (\<Sum>m = 0..nz - 1. rd P (jx + m * nz) * rd V0 (klo + (l + m * nk)))"
  by (simp add: Exp_loop_def fold_add_upto)

text \<open>With the pointers \<^verbatim>\<open>vfStep\<close> passes (\<^verbatim>\<open>&P[0]+jx\<close>, \<^verbatim>\<open>&V0[0]+klo\<close>, \<open>klo = 0\<close>),
  the value \<open>w\<close> of the maximisers is the objective of the specification.\<close>

lemma bellman_w_objective:
  "bellman_w 0 (vf_nk c) (vf_nz c) (vfStep_ydepK c hx) (vf_eta c) (vf_beta c) (vf_K c)
     (vf_P c, vfStep_jx c hx) (vf_V0 c, 0) l = bellman_objective c hx l"
  by (simp add: bellman_w_def bellman_objective_def Exp_loop_sum)

lemma vfStep_cell: "0 \<le> hx \<Longrightarrow> vfStep_ix c hx + vfStep_jx c hx * vf_nk c = hx"
  unfolding vfStep_ix_def vfStep_jx_def
  by (cases "vf_nk c = 0") (simp_all add: minus_mod_eq_mult_div)

text \<open>The scan of \<^verbatim>\<open>grid_max\<close> over \<open>l = 1, \<dots>, n\<close>: it ends at the first index of
  \<open>[0, n]\<close> where \<open>w\<close> is largest.\<close>

lemma grid_fold_inv:
  fixes w :: "int \<Rightarrow> real"
  assumes "0 \<le> n"
  shows "\<exists>i. fold (\<lambda>l (wmax, windmax).
                     let w' = w l in if w' > wmax then (w', l) else (wmax, windmax))
             [1..n] (w 0, 0) = (w i, i) \<and> 0 \<le> i \<and> i \<le> n \<and>
             (\<forall>l. 0 \<le> l \<and> l \<le> n \<longrightarrow> w l \<le> w i) \<and> (\<forall>l. 0 \<le> l \<and> l < i \<longrightarrow> w l < w i)"
  using assms
proof (induction n rule: int_ge_induct)
  case base
  have "\<And>l::int. 0 \<le> l \<and> l \<le> 0 \<Longrightarrow> l = 0" by linarith
  then show ?case by auto
next
  case (step n)
  then obtain i where i:
    "fold (\<lambda>l (wmax, windmax). let w' = w l in if w' > wmax then (w', l) else (wmax, windmax))
       [1..n] (w 0, 0) = (w i, i)" "0 \<le> i" "i \<le> n"
    "\<forall>l. 0 \<le> l \<and> l \<le> n \<longrightarrow> w l \<le> w i" "\<forall>l. 0 \<le> l \<and> l < i \<longrightarrow> w l < w i" by blast
  have up: "[1..n + 1] = [1..n] @ [n + 1]" using step.hyps by (simp add: upto_rec2)
  show ?case
  proof (cases "w (n + 1) > w i")
    case True
    have "\<forall>l. 0 \<le> l \<and> l \<le> n + 1 \<longrightarrow> w l \<le> w (n + 1)"
    proof (intro allI impI)
      fix l assume "0 \<le> l \<and> l \<le> n + 1"
      then consider "l \<le> n" "0 \<le> l" | "l = n + 1" by linarith
      then show "w l \<le> w (n + 1)" using i(4) True by cases force+
    qed
    moreover have "\<forall>l. 0 \<le> l \<and> l < n + 1 \<longrightarrow> w l < w (n + 1)"
      using i(4) True by force
    ultimately show ?thesis using i True step.hyps
      by (intro exI[of _ "n + 1"]) (simp add: up Let_def)
  next
    case False
    have "\<forall>l. 0 \<le> l \<and> l \<le> n + 1 \<longrightarrow> w l \<le> w i"
    proof (intro allI impI)
      fix l assume "0 \<le> l \<and> l \<le> n + 1"
      then consider "l \<le> n" "0 \<le> l" | "l = n + 1" by linarith
      then show "w l \<le> w i" using i(4) False by cases force+
    qed
    then show ?thesis using i False
      by (intro exI[of _ i]) (simp add: up Let_def)
  qed
qed

lemma grid_max_spec:
  assumes "1 \<le> nksub"
  shows "\<exists>i. grid_max klo nksub nk nz ydepK eta beta K P V0
            = (bellman_w klo nk nz ydepK eta beta K P V0 i, real_of_int (klo + i)) \<and>
          0 \<le> i \<and> i \<le> nksub - 1 \<and>
          (\<forall>l. 0 \<le> l \<and> l \<le> nksub - 1 \<longrightarrow> bellman_w klo nk nz ydepK eta beta K P V0 l
                                          \<le> bellman_w klo nk nz ydepK eta beta K P V0 i) \<and>
          (\<forall>l. 0 \<le> l \<and> l < i \<longrightarrow> bellman_w klo nk nz ydepK eta beta K P V0 l
                                          < bellman_w klo nk nz ydepK eta beta K P V0 i)"
proof -
  from assms have "0 \<le> nksub - 1" by simp
  from grid_fold_inv[OF this, of "bellman_w klo nk nz ydepK eta beta K P V0"]
  show ?thesis unfolding grid_max_def Let_def by force
qed

lemma vfStep_grid:
  assumes "vf_howard c = False" "vf_maxtype c = CHR ''g''" "0 \<le> hx"
    "vfStep_khi (vfStep_ydepK c hx) (vf_nk c) (vf_K c) = Some khi"
  shows "vfStep c hx (V, G) =
     (case grid_max 0 (khi + 1) (vf_nk c) (vf_nz c) (vfStep_ydepK c hx) (vf_eta c) (vf_beta c)
             (vf_K c) (vf_P c, vfStep_jx c hx) (vf_V0 c, 0) of
        (v, g) \<Rightarrow> Some (V[nat hx := v], G[nat hx := g]))"
  using assms by (simp add: vfStep_def Let_def vfStep_cell)

lemma vfStep_state:
  assumes "0 < vf_nk c"
  shows "vfStep_ix c hx = hx mod vf_nk c" "vfStep_jx c hx = hx div vf_nk c"
  using assms by (simp_all add: vfStep_ix_def vfStep_jx_def minus_mod_eq_mult_div)

text \<open>Claim C3. Let \<open>hx \<ge> 0\<close> be the flat index of the state \<open>(k, j)\<close>, \<open>k = hx mod nk\<close>,
  \<open>j = hx div nk\<close>, on a strictly increasing capital grid of \<open>1 \<le> nk \<le> 2\<^sup>3\<^sup>0\<close> points
  with \<open>K[k] > 0\<close>; let \<open>ydepK = Z[j]\<cdot>K[k]\<^bsup>alpha\<^esup> + (1 - delta)\<cdot>K[k]\<close> reach \<open>K[0]\<close>, so
  that the set \<open>F\<close> of feasible candidates \<open>k'\<close>, those with \<open>K[k'] \<le> ydepK\<close>, is not
  empty; and let \<open>obj k' = u(ydepK - K[k']) + beta \<cdot> \<Sum>z'. P[j + z'\<cdot>nz] \<cdot> V0[k' + z'\<cdot>nk]\<close>
  with \<open>u(c) = c\<^bsup>1-eta\<^esup>/(1-eta)\<close>, \<open>eta \<noteq> 1\<close>. Utility is finite at every feasible candidate
  when \<open>eta < 1\<close> or no capital point equals \<open>ydepK\<close> (at zero consumption with
  \<open>eta > 1\<close> the kernel computes \<open>-\<infinity>\<close>, which the real-valued model does not have).
  Then a grid-search pass of \<^verbatim>\<open>vfStep\<close> over output arrays that hold cell \<open>hx\<close>
  stores the maximum of \<open>obj\<close> over \<open>F\<close> in cell \<open>k + j\<cdot>nk\<close> of \<open>V\<close>, stores in the
  same cell of \<open>G\<close> a feasible index at which \<open>obj\<close> takes that maximum, and changes
  nothing else.\<close>

theorem grid_search_maximises:
  fixes c :: vfStep_attrs and V G :: "real list" and obj :: "int \<Rightarrow> real"
  assumes "vf_howard c = False" "vf_maxtype c = CHR ''g''"
    and "1 \<le> vf_nk c" "vf_nk c \<le> 2 ^ 30" "0 \<le> hx"
    and "length (vf_K c) = nat (vf_nk c)" "sorted_wrt (<) (vf_K c)"
    and "hx < int (length V)" "length G = length V"
    and "k = hx mod vf_nk c" "j = hx div vf_nk c"
    and "0 < rd (vf_K c) k"
    and "ydepK = rd (vf_Z c) j * rd (vf_K c) k powr vf_alpha c + (1 - vf_delta c) * rd (vf_K c) k"
    and "rd (vf_K c) 0 \<le> ydepK"
    and "vf_eta c \<noteq> 1" "vf_eta c < 1 \<or> ydepK \<notin> set (vf_K c)"
    and "F = {k'. 0 \<le> k' \<and> k' < vf_nk c \<and> rd (vf_K c) k' \<le> ydepK}"
    and "obj = (\<lambda>k'. (ydepK - rd (vf_K c) k') powr (1 - vf_eta c) / (1 - vf_eta c)
                  + vf_beta c * (\<Sum>z' = 0..vf_nz c - 1.
                      rd (vf_P c) (j + z' * vf_nz c) * rd (vf_V0 c) (k' + z' * vf_nk c)))"
  shows "\<exists>g. g \<in> F \<and> obj g = Max (obj ` F) \<and>
           vfStep c hx (V, G) = Some (V[nat (k + j * vf_nk c) := Max (obj ` F)],
                                     G[nat (k + j * vf_nk c) := real_of_int g])"
proof -
  let ?K = "vf_K c" and ?nk = "vf_nk c"
  from assms(3) have nk: "0 < ?nk" by simp
  note st = vfStep_state[OF nk, of hx, folded assms(10,11)]
  have y: "vfStep_ydepK c hx = ydepK"
    by (simp add: vfStep_ydepK_def st pow_pos[OF assms(12)] assms(13))
  from vfStep_khi_greatest[OF assms(7,6,3,4,14)]
  obtain khi where khi: "vfStep_khi ydepK ?nk ?K = Some khi" "0 \<le> khi" "khi \<le> ?nk - 1"
    "\<forall>k'. 0 \<le> k' \<and> k' \<le> khi \<longrightarrow> rd ?K k' \<le> ydepK"
    "\<forall>k'. khi < k' \<and> k' \<le> ?nk - 1 \<longrightarrow> ydepK < rd ?K k'" by blast
  have F: "F = {0..khi}"
  proof (intro equalityI subsetI)
    fix k' assume "k' \<in> F"
    then have k': "0 \<le> k'" "k' < ?nk" "rd ?K k' \<le> ydepK" by (simp_all add: assms(17))
    have "k' \<le> khi"
    proof (rule ccontr)
      assume "\<not> k' \<le> khi"
      with k'(2) khi(5) have "ydepK < rd ?K k'" by simp
      with k'(3) show False by simp
    qed
    with k'(1) show "k' \<in> {0..khi}" by simp
  next
    fix k' assume "k' \<in> {0..khi}"
    with khi(3,4) show "k' \<in> F" by (simp add: assms(17))
  qed
  let ?w = "bellman_w 0 ?nk (vf_nz c) ydepK (vf_eta c) (vf_beta c) ?K (vf_P c, j) (vf_V0 c, 0)"
  have w: "?w l = obj l" if "0 \<le> l" "l \<le> khi" for l
  proof -
    from that khi(4) have "0 \<le> ydepK - rd ?K l" by simp
    moreover from assms(15) have "1 - vf_eta c \<noteq> 0" by simp
    ultimately have "pow (ydepK - rd ?K l) (1 - vf_eta c)
        = (ydepK - rd ?K l) powr (1 - vf_eta c)" by (rule pow_nonneg)
    then show ?thesis by (simp add: bellman_w_def Exp_loop_sum assms(18))
  qed
  from khi(2) have "1 \<le> khi + 1" by simp
  from grid_max_spec[OF this, of 0 ?nk "vf_nz c" ydepK "vf_eta c" "vf_beta c" ?K
      "(vf_P c, j)" "(vf_V0 c, 0)"]
  obtain i where i: "grid_max 0 (khi + 1) ?nk (vf_nz c) ydepK (vf_eta c) (vf_beta c) ?K
        (vf_P c, j) (vf_V0 c, 0) = (?w i, real_of_int i)" "0 \<le> i" "i \<le> khi"
    "\<forall>l. 0 \<le> l \<and> l \<le> khi \<longrightarrow> ?w l \<le> ?w i" by auto
  have mx: "Max (obj ` F) = obj i"
    unfolding F using i(2-4) w by (intro Max_eqI) auto
  have cell: "k + j * ?nk = hx" unfolding assms(10,11) by simp
  from khi(1) have "vfStep_khi (vfStep_ydepK c hx) ?nk ?K = Some khi" by (simp only: y)
  from vfStep_grid[OF assms(1,2,5) this, of V G]
  have "vfStep c hx (V, G) = Some (V[nat hx := obj i], G[nat hx := real_of_int i])"
    by (simp add: y st i(1) w[OF i(2,3)])
  with mx i(2,3) show ?thesis unfolding cell F by (intro exI[of _ i]) simp
qed

theorem grid_search_maximises_witness:
  "\<exists>g. g \<in> {k'. 0 \<le> k' \<and> k' < vf_nk cfg_small \<and> rd (vf_K cfg_small) k' \<le> 3} \<and>
     (\<lambda>k'. (3 - rd (vf_K cfg_small) k') powr (1 - vf_eta cfg_small) / (1 - vf_eta cfg_small)
                  + vf_beta cfg_small * (\<Sum>z' = 0..vf_nz cfg_small - 1.
                      rd (vf_P cfg_small) (0 + z' * vf_nz cfg_small)
                        * rd (vf_V0 cfg_small) (k' + z' * vf_nk cfg_small))) g
       = Max ((\<lambda>k'. (3 - rd (vf_K cfg_small) k') powr (1 - vf_eta cfg_small)
                      / (1 - vf_eta cfg_small)
                  + vf_beta cfg_small * (\<Sum>z' = 0..vf_nz cfg_small - 1.
                      rd (vf_P cfg_small) (0 + z' * vf_nz cfg_small)
                        * rd (vf_V0 cfg_small) (k' + z' * vf_nk cfg_small)))
               ` {k'. 0 \<le> k' \<and> k' < vf_nk cfg_small \<and> rd (vf_K cfg_small) k' \<le> 3}) \<and>
     vfStep cfg_small 0 ([0, 0], [0, 0])
       = Some ([0, 0][nat (0 + 0 * vf_nk cfg_small) :=
                 Max ((\<lambda>k'. (3 - rd (vf_K cfg_small) k') powr (1 - vf_eta cfg_small)
                      / (1 - vf_eta cfg_small)
                  + vf_beta cfg_small * (\<Sum>z' = 0..vf_nz cfg_small - 1.
                      rd (vf_P cfg_small) (0 + z' * vf_nz cfg_small)
                        * rd (vf_V0 cfg_small) (k' + z' * vf_nk cfg_small)))
               ` {k'. 0 \<le> k' \<and> k' < vf_nk cfg_small \<and> rd (vf_K cfg_small) k' \<le> 3})],
               [0, 0][nat (0 + 0 * vf_nk cfg_small) := real_of_int g])"
  by (rule grid_search_maximises[where c = cfg_small and hx = 0 and k = 0 and j = 0
        and ydepK = 3])
     (simp_all add: cfg_small_def)

section \<open>The bisection maximiser and the policy-fixed update\<close>

lemma c_int_of_int: "c_int (real_of_int i) = i"
  by (simp add: c_int_def)

text \<open>Whatever the bracket, \<^verbatim>\<open>grid_max\<close> returns the objective at some offset together
  with that offset.\<close>

lemma grid_fold_attains:
  fixes w :: "int \<Rightarrow> real"
  shows "\<exists>i. fold (\<lambda>l (wmax, windmax).
                     let w' = w l in if w' > wmax then (w', l) else (wmax, windmax))
             ls (w j, j) = (w i, i)"
proof (induction ls arbitrary: j)
  case Nil
  show ?case by simp
next
  case (Cons l ls)
  show ?case using Cons[of l] Cons[of j] by (simp add: Let_def)
qed

lemma grid_max_attains:
  "\<exists>i. grid_max klo nksub nk nz ydepK eta beta K P V0
        = (bellman_w klo nk nz ydepK eta beta K P V0 i, real_of_int (klo + i))"
proof -
  from grid_fold_attains[of "bellman_w klo nk nz ydepK eta beta K P V0" "[1..nksub - 1]" 0]
  show ?thesis unfolding grid_max_def Let_def by force
qed

text \<open>The loop of \<^verbatim>\<open>binary_max\<close>, entered with more than three candidates, leaves a
  bracket \<open>[a, a + 2]\<close> inside the initial one; the last \<open>w1\<close>, \<open>w2\<close> are the objective
  at \<open>a\<close>, \<open>a + 1\<close> when the last step moved \<open>kslo\<close>, and at \<open>a + 1\<close>, \<open>a + 2\<close>
  when it moved \<open>kshi\<close>.\<close>

lemma binary_max_loop_post:
  fixes w :: "int \<Rightarrow> real"
  assumes "kshi - kslo > 2" "binary_max_loop w kslo kshi w1 w2 = Some (a, b, u, v)"
  shows "kslo \<le> a \<and> b \<le> kshi \<and> b = a + 2 \<and>
           (if v > u then u = w a \<and> v = w (a + 1) else u = w (a + 1) \<and> v = w b)"
  using assms
proof (induction "nat (kshi - kslo)" arbitrary: kslo kshi w1 w2 rule: less_induct)
  case less
  let ?m = "(kslo + kshi) div 2"
  from less.prems(1) have lt1: "nat (kshi - ?m) < nat (kshi - kslo)"
    and lt2: "nat (?m + 1 - kslo) < nat (kshi - kslo)"
    and b: "kslo < ?m" "?m + 1 < kshi" "kshi - ?m \<ge> 2" "?m + 1 - kslo \<ge> 2" by linarith+
  note step = binary_max_loop_step0[OF less.prems(1)
      binary_max_loop_no_overflow[OF less.prems(2,1)], of w w1 w2]
  show ?case
  proof (cases "w (?m + 1) > w ?m")
    case True
    with less.prems(2) have rec: "binary_max_loop w ?m kshi (w ?m) (w (?m + 1)) = Some (a, b, u, v)"
      unfolding step by (simp add: Let_def)
    show ?thesis
    proof (cases "kshi - ?m > 2")
      case big: True
      from less.hyps[OF lt1 big rec] b show ?thesis by auto
    next
      case False
      with b have e: "kshi = ?m + 2" by linarith
      from False have "binary_max_loop w ?m kshi (w ?m) (w (?m + 1))
          = Some (?m, kshi, w ?m, w (?m + 1))" by (rule binary_max_loop_stop)
      with rec have "a = ?m" "b = kshi" "u = w ?m" "v = w (?m + 1)" by auto
      with True b e show ?thesis by simp
    qed
  next
    case False
    with less.prems(2)
    have rec: "binary_max_loop w kslo (?m + 1) (w ?m) (w (?m + 1)) = Some (a, b, u, v)"
      unfolding step by (simp add: Let_def)
    show ?thesis
    proof (cases "?m + 1 - kslo > 2")
      case big: True
      from less.hyps[OF lt2 big rec] b show ?thesis by auto
    next
      case small: False
      with b have e: "?m = kslo + 1" by linarith
      from small have "binary_max_loop w kslo (?m + 1) (w ?m) (w (?m + 1))
          = Some (kslo, ?m + 1, w ?m, w (?m + 1))" by (rule binary_max_loop_stop)
      with rec have "a = kslo" "b = ?m + 1" "u = w ?m" "v = w (?m + 1)" by auto
      with False b e show ?thesis by simp
    qed
  qed
qed

text \<open>In each of its three cases \<^verbatim>\<open>binary_max\<close> stores the objective at some offset
  together with that offset.\<close>

lemma binary_max_attains:
  assumes "binary_max klo nksub nk nz ydepK eta beta K P V0 = Some (x, g)"
  shows "\<exists>i. x = bellman_w klo nk nz ydepK eta beta K P V0 i \<and> g = real_of_int (klo + i)"
proof -
  let ?w = "bellman_w klo nk nz ydepK eta beta K P V0"
  consider (big) "nksub > 3" | (three) "nksub = 3" | (small) "nksub < 3" by linarith
  then show ?thesis
  proof cases
    case big
    then have g2: "nksub - 1 - 0 > 2" by simp
    from assms big obtain a b u v where
      r: "binary_max_loop ?w 0 (nksub - 1) 0 0 = Some (a, b, u, v)"
      by (auto simp add: binary_max_def Let_def split: option.splits)
    from binary_max_loop_post[OF g2 r]
    have p: "b = a + 2" "if v > u then u = ?w a \<and> v = ?w (a + 1) else u = ?w (a + 1) \<and> v = ?w b"
      by auto
    from assms big r have res: "(x, g) =
        (if v > u then (if v > ?w b then (v, real_of_int (klo + a + 1))
                        else (?w b, real_of_int (klo + b)))
         else (if ?w a > u then (?w a, real_of_int (klo + a))
               else (u, real_of_int (klo + a + 1))))"
      by (simp add: binary_max_def Let_def split: if_splits)
    show ?thesis
    proof (cases "v > u")
      case True
      with p(2) have uv: "v = ?w (a + 1)" by simp
      show ?thesis
      proof (cases "v > ?w b")
        case True
        with \<open>v > u\<close> res uv show ?thesis
          by (intro exI[of _ "a + 1"]) (simp add: add.assoc)
      next
        case False
        with \<open>v > u\<close> res show ?thesis
          by (intro exI[of _ "b"]) simp
      qed
    next
      case False
      with p(2) have uv: "u = ?w (a + 1)" by simp
      show ?thesis
      proof (cases "?w a > u")
        case True
        with \<open>\<not> v > u\<close> res show ?thesis
          by (intro exI[of _ "a"]) simp
      next
        case False
        with \<open>\<not> v > u\<close> res uv show ?thesis
          by (intro exI[of _ "a + 1"]) (simp add: add.assoc)
      qed
    qed
  next
    case three
    show ?thesis
    proof (cases "?w 1 > ?w 0")
      case True
      show ?thesis
      proof (cases "?w 2 > ?w 1")
        case True
        with \<open>?w 1 > ?w 0\<close> three assms show ?thesis
          by (intro exI[of _ 2]) (simp add: binary_max_def Let_def)
      next
        case False
        with \<open>?w 1 > ?w 0\<close> three assms show ?thesis
          by (intro exI[of _ 1]) (simp add: binary_max_def Let_def)
      qed
    next
      case False
      show ?thesis
      proof (cases "?w 2 > ?w 0")
        case True
        with \<open>\<not> ?w 1 > ?w 0\<close> three assms show ?thesis
          by (intro exI[of _ 2]) (simp add: binary_max_def Let_def)
      next
        case False
        with \<open>\<not> ?w 1 > ?w 0\<close> three assms show ?thesis
          by (intro exI[of _ 0]) (simp add: binary_max_def Let_def)
      qed
    qed
  next
    case small
    show ?thesis
    proof (cases "?w (nksub - 1) > ?w 0")
      case True
      with small assms show ?thesis
        by (intro exI[of _ "nksub - 1"]) (simp add: binary_max_def Let_def)
    next
      case False
      with small assms show ?thesis
        by (intro exI[of _ 0]) (simp add: binary_max_def Let_def)
    qed
  qed
qed

text \<open>The policy-fixed branch with an integral policy entry \<open>G[hx] = i\<close> computes the
  objective at \<open>i\<close>.\<close>

lemma vfStep_howard_objective:
  assumes "0 \<le> hx" "rd G hx = real_of_int i"
  shows "vfStep_howard c hx G = bellman_objective c hx i"
  using assms
  by (simp add: vfStep_howard_def Let_def vfStep_cell c_int_of_int bellman_objective_def
      fold_add_upto)

lemma vfStep_ydepK_howard: "vfStep_ydepK (c\<lparr>vf_howard := b\<rparr>) hx = vfStep_ydepK c hx"
  by (simp add: vfStep_ydepK_def vfStep_ix_def vfStep_jx_def)

lemma bellman_objective_howard:
  "bellman_objective (c\<lparr>vf_howard := b\<rparr>) hx = bellman_objective c hx"
  by (rule ext) (simp add: bellman_objective_def vfStep_jx_def vfStep_ix_def vfStep_ydepK_howard)

text \<open>What a maximisation pass writes, for either maximiser.\<close>

lemma vfStep_max_writes:
  assumes "vf_howard c = False" "vf_maxtype c = CHR ''g'' \<or> vf_maxtype c = CHR ''b''" "0 \<le> hx"
    "vfStep c hx (V, G) = Some (V1, G1)"
  shows "\<exists>i. V1 = V[nat hx := bellman_objective c hx i] \<and> G1 = G[nat hx := real_of_int i]"
proof -
  from assms(1,4) obtain khi where
    khi: "vfStep_khi (vfStep_ydepK c hx) (vf_nk c) (vf_K c) = Some khi"
    by (auto simp add: vfStep_def Let_def split: option.splits)
  from assms(2) show ?thesis
  proof
    assume g: "vf_maxtype c = CHR ''g''"
    from grid_max_attains[of 0 "khi + 1" "vf_nk c" "vf_nz c" "vfStep_ydepK c hx" "vf_eta c"
        "vf_beta c" "vf_K c" "(vf_P c, vfStep_jx c hx)" "(vf_V0 c, 0)"]
    show ?thesis using assms(1,3,4) g khi
      by (auto simp add: vfStep_def Let_def vfStep_cell bellman_w_objective)
  next
    assume b: "vf_maxtype c = CHR ''b''"
    from assms(1,3,4) b khi obtain x g where
      r: "binary_max 0 (khi + 1) (vf_nk c) (vf_nz c) (vfStep_ydepK c hx) (vf_eta c)
            (vf_beta c) (vf_K c) (vf_P c, vfStep_jx c hx) (vf_V0 c, 0) = Some (x, g)"
      and w: "V1 = V[nat hx := x]" "G1 = G[nat hx := g]"
      by (auto simp add: vfStep_def Let_def vfStep_cell split: option.splits)
    from binary_max_attains[OF r] w show ?thesis
      by (auto simp add: bellman_w_objective)
  qed
qed

lemma vfStep_howard_writes:
  assumes "vf_howard c" "0 \<le> hx"
  shows "vfStep c hx (V, G) = Some (V[nat hx := vfStep_howard c hx G], G)"
  using assms by (simp add: vfStep_def Let_def vfStep_cell)

lemma step_small:
  "vfStep (cfg_small\<lparr>vf_howard := False\<rparr>) 0 ([0, 0], [0, 0]) = Some ([1 / 2, 0], [1, 0])"
  by (simp add: cfg_small_def vfStep_ix_def vfStep_jx_def vfStep_ydepK_def vfStep_khi_def
      binary_val_def vfStep_def grid_max_def bellman_w_def Exp_loop_def pow_def Let_def
      powr_minus_divide)

text \<open>Claim C5. Let a maximisation pass (grid search or bisection) at state \<open>hx\<close> turn
  \<open>(V, G)\<close> into \<open>(V1, G1)\<close>. The policy-fixed branch at the same state, with the same
  read-only inputs and the policy \<open>G1\<close>, on any output buffer \<open>W\<close> of the same length,
  leaves \<open>G1\<close> as it is and stores in cell \<open>hx\<close> exactly the value \<open>V1[hx]\<close>.\<close>

theorem howard_reproduces_maximiser:
  assumes "vf_maxtype c = CHR ''g'' \<or> vf_maxtype c = CHR ''b''"
    "0 \<le> hx" "hx < int (length V)" "length G = length V" "length W = length V" "0 < vf_nk c"
    "vfStep (c\<lparr>vf_howard := False\<rparr>) hx (V, G) = Some (V1, G1)"
  shows "\<exists>V2. vfStep (c\<lparr>vf_howard := True\<rparr>) hx (W, G1) = Some (V2, G1) \<and> rd V2 hx = rd V1 hx"
proof -
  from vfStep_max_writes[OF _ _ assms(2,7)] assms(1)
  obtain i where i: "V1 = V[nat hx := bellman_objective c hx i]"
    "G1 = G[nat hx := real_of_int i]" by (auto simp: bellman_objective_howard)
  with assms have "rd G1 hx = real_of_int i" by simp
  from vfStep_howard_objective[OF assms(2) this, of "c\<lparr>vf_howard := True\<rparr>"]
  have "vfStep_howard (c\<lparr>vf_howard := True\<rparr>) hx G1 = bellman_objective c hx i"
    by (simp add: bellman_objective_howard)
  with vfStep_howard_writes[of "c\<lparr>vf_howard := True\<rparr>" hx W G1] assms i
  show ?thesis by simp
qed

theorem howard_reproduces_maximiser_witness:
  "vf_maxtype cfg_small = CHR ''g'' \<and> 0 < vf_nk cfg_small \<and>
   vfStep (cfg_small\<lparr>vf_howard := False\<rparr>) 0 ([0, 0], [0, 0]) = Some ([1 / 2, 0], [1, 0]) \<and>
   (\<exists>V2. vfStep (cfg_small\<lparr>vf_howard := True\<rparr>) 0 ([7, 7], [1, 0]) = Some (V2, [1, 0]) \<and>
          rd V2 0 = rd [1 / 2, 0] 0)"
proof -
  have h: "vf_maxtype cfg_small = CHR ''g''" "0 < vf_nk cfg_small"
    by (simp_all add: cfg_small_def)
  from howard_reproduces_maximiser[of cfg_small 0 "[0, 0]" "[0, 0]" "[7, 7]" "[1 / 2, 0]" "[1, 0]"]
    h step_small
  show ?thesis by simp
qed

section \<open>Independence of the states of one pass\<close>

lemma vfStep_howard_cell:
  assumes "0 \<le> hx" "rd G hx = rd G' hx"
  shows "vfStep_howard c hx G = vfStep_howard c hx G'"
  using assms by (simp add: vfStep_howard_def Let_def vfStep_cell)

text \<open>The shape of every \<^verbatim>\<open>vfStep\<close> call: a policy-fixed pass overwrites \<open>V[hx]\<close> by a
  function of \<open>G[hx]\<close>; a maximisation pass overwrites \<open>V[hx]\<close> and \<open>G[hx]\<close> by values
  that do not depend on \<open>V\<close> or \<open>G\<close>; with any other \<^verbatim>\<open>maxtype\<close> nothing is written.\<close>

lemma vfStep_normal_form:
  assumes "0 \<le> hx" "vf_howard c \<or> vf_nk c \<le> 2 ^ 30"
  shows "\<exists>v g f. \<forall>V G. vfStep c hx (V, G) =
           Some (if vf_howard c then (V[nat hx := f (rd G hx)], G)
                 else if vf_maxtype c = CHR ''g'' \<or> vf_maxtype c = CHR ''b''
                      then (V[nat hx := v], G[nat hx := g])
                 else (V, G))"
proof (cases "vf_howard c")
  case True
  have eq: "vfStep_howard c hx G = vfStep_howard c hx (replicate (Suc (nat hx)) (rd G hx))" for G
    by (rule vfStep_howard_cell[OF assms(1)]) (simp only: nth_replicate lessI)
  have "vfStep c hx (V, G)
      = Some (V[nat hx := vfStep_howard c hx (replicate (Suc (nat hx)) (rd G hx))], G)" for V G
    using vfStep_howard_writes[OF True assms(1), of V G] eq[of G] by (simp del: replicate.simps)
  then have "\<forall>V G. vfStep c hx (V, G)
      = Some (V[nat hx := (\<lambda>x. vfStep_howard c hx (replicate (Suc (nat hx)) x)) (rd G hx)], G)"
    by simp
  with True show ?thesis
    by (intro exI[of _ "0::real"]
          exI[of _ "\<lambda>x. vfStep_howard c hx (replicate (Suc (nat hx)) x)"])
       (simp del: replicate.simps)
next
  case False
  with assms(2) have bnd: "vf_nk c \<le> 2 ^ 30" by simp
  obtain khi where khi: "vfStep_khi (vfStep_ydepK c hx) (vf_nk c) (vf_K c) = Some khi"
    using binary_val_returns[OF bnd, of "vfStep_ydepK c hx" "vf_K c"]
    by (auto simp: vfStep_khi_def)
  from vfStep_khi_le[OF khi] bnd have sub: "khi + 1 \<le> 2 ^ 30" by simp
  show ?thesis
  proof (cases "vf_maxtype c = CHR ''g'' \<or> vf_maxtype c = CHR ''b''")
    case mt: True
    from mt show ?thesis
    proof
      assume g: "vf_maxtype c = CHR ''g''"
      obtain v gg where "grid_max 0 (khi + 1) (vf_nk c) (vf_nz c) (vfStep_ydepK c hx) (vf_eta c)
        (vf_beta c) (vf_K c) (vf_P c, vfStep_jx c hx) (vf_V0 c, 0) = (v, gg)" by fastforce
      with False g khi assms
      have "\<forall>V G. vfStep c hx (V, G) = Some (V[nat hx := v], G[nat hx := gg])"
        by (simp add: vfStep_def Let_def vfStep_cell)
      with False g show ?thesis by auto
    next
      assume b: "vf_maxtype c = CHR ''b''"
      obtain v gg where "binary_max 0 (khi + 1) (vf_nk c) (vf_nz c) (vfStep_ydepK c hx) (vf_eta c)
        (vf_beta c) (vf_K c) (vf_P c, vfStep_jx c hx) (vf_V0 c, 0) = Some (v, gg)"
        using binary_max_returns[OF sub] by fastforce
      with False b khi assms
      have "\<forall>V G. vfStep c hx (V, G) = Some (V[nat hx := v], G[nat hx := gg])"
        by (simp add: vfStep_def Let_def vfStep_cell)
      with False b show ?thesis by auto
    qed
  next
    case nomt: False
    with False khi have "\<forall>V G. vfStep c hx (V, G) = Some (V, G)"
      by (simp add: vfStep_def Let_def)
    with False nomt show ?thesis by auto
  qed
qed

lemma vfStep_commute:
  assumes "0 \<le> x" "0 \<le> y" "vf_howard c \<or> vf_nk c \<le> 2 ^ 30"
  shows "Option.bind (Option.bind s (vfStep c x)) (vfStep c y)
       = Option.bind (Option.bind s (vfStep c y)) (vfStep c x)"
proof (cases s)
  case None
  then show ?thesis by simp
next
  case (Some VG)
  obtain V G where VG: "VG = (V, G)" by (cases VG)
  show ?thesis
  proof (cases "x = y")
    case True
    then show ?thesis by simp
  next
    case False
    with assms have ne: "nat x \<noteq> nat y" by simp
    from vfStep_normal_form[OF assms(1,3)] obtain vx gx fx where
      X: "\<And>V G. vfStep c x (V, G) =
           Some (if vf_howard c then (V[nat x := fx (rd G x)], G)
                 else if vf_maxtype c = CHR ''g'' \<or> vf_maxtype c = CHR ''b''
                      then (V[nat x := vx], G[nat x := gx])
                 else (V, G))" by blast
    from vfStep_normal_form[OF assms(2,3)] obtain vy gy fy where
      Y: "\<And>V G. vfStep c y (V, G) =
           Some (if vf_howard c then (V[nat y := fy (rd G y)], G)
                 else if vf_maxtype c = CHR ''g'' \<or> vf_maxtype c = CHR ''b''
                      then (V[nat y := vy], G[nat y := gy])
                 else (V, G))" by blast
    show ?thesis unfolding Some VG using ne
      by (simp add: X Y list_update_swap[of "nat x" "nat y"])
  qed
qed

lemma vfPass_permute:
  assumes "\<forall>h\<in>set xs. 0 \<le> h" "mset xs = mset ys" "vf_howard c \<or> vf_nk c \<le> 2 ^ 30"
  shows "vfPass c xs VG = vfPass c ys VG"
  unfolding vfPass_def
proof (rule fold_permuted_eq[where P = "\<lambda>_. True", OF assms(2)])
  show True ..
next
  fix x z show True ..
next
  fix x y z assume "x \<in> set xs" "y \<in> set xs"
  with assms(1) have "0 \<le> x" "0 \<le> y" by auto
  from vfStep_commute[OF this(2,1) assms(3), of z]
  show "Option.bind (Option.bind z (vfStep c y)) (vfStep c x)
      = Option.bind (Option.bind z (vfStep c x)) (vfStep c y)"
    by simp
qed

text \<open>Claim C9. A \<^verbatim>\<open>vfStep\<close> call at the flat index \<open>hx \<ge> 0\<close> (with \<open>nk > 0\<close>, and
  on a maximisation pass \<open>nk \<le> 2\<^sup>3\<^sup>0\<close>, where the two searches return) changes
  nothing but cell \<open>hx\<close> of \<open>V\<close> and, on a maximisation pass, of \<open>G\<close>. On a
  policy-fixed pass the value stored is a function of \<open>G[hx]\<close> and the read-only
  attributes; on a maximisation pass both values are functions of the read-only attributes
  alone; \<open>K\<close>, \<open>Z\<close>, \<open>P\<close> and \<open>V0\<close> are only read. Hence a pass over the states gives the
  same arrays in whatever order the states are taken.\<close>

theorem vfStep_frame_and_order:
  assumes "0 \<le> hx" "0 < vf_nk c" "vf_howard c \<or> vf_nk c \<le> 2 ^ 30"
    "\<forall>h\<in>set xs. 0 \<le> h" "mset xs = mset ys"
  shows "(\<exists>v g f. \<forall>V G. vfStep c hx (V, G) =
            Some (if vf_howard c then (V[nat hx := f (rd G hx)], G)
                  else if vf_maxtype c = CHR ''g'' \<or> vf_maxtype c = CHR ''b''
                       then (V[nat hx := v], G[nat hx := g])
                  else (V, G))) \<and>
         vfPass c xs VG = vfPass c ys VG"
  using vfStep_normal_form[OF assms(1,3)] vfPass_permute[OF assms(4,5,3)] by blast

theorem vfStep_frame_and_order_witness:
  "0 < vf_nk cfg_small \<and> vf_howard cfg_small = False \<and> vf_nk cfg_small \<le> 2 ^ 30 \<and>
   mset [0, 1 :: int] = mset [1, 0] \<and>
   (\<exists>v g f. \<forall>V G. vfStep cfg_small 0 (V, G) =
            Some (if vf_howard cfg_small then (V[nat 0 := f (rd G 0)], G)
                  else if vf_maxtype cfg_small = CHR ''g'' \<or> vf_maxtype cfg_small = CHR ''b''
                       then (V[nat 0 := v], G[nat 0 := g])
                  else (V, G))) \<and>
   vfPass cfg_small [0, 1] ([0, 0], [0, 0]) = vfPass cfg_small [1, 0] ([0, 0], [0, 0])"
proof -
  have h: "0 < vf_nk cfg_small" "mset [0, 1 :: int] = mset [1, 0]"
    "\<forall>h\<in>set [0, 1 :: int]. 0 \<le> h" "vf_howard cfg_small \<or> vf_nk cfg_small \<le> 2 ^ 30"
    "vf_howard cfg_small = False" "vf_nk cfg_small \<le> 2 ^ 30"
    by (simp_all add: cfg_small_def)
  from vfStep_frame_and_order[of 0 cfg_small "[0, 1]" "[1, 0]" "([0, 0], [0, 0])",
      OF _ h(1,4,3,2)] h
  show ?thesis by simp
qed

section \<open>The discretiser: where probabilities are stored and where they are read\<close>

lemma erf_0: "erf 0 = 0"
  by (simp add: erf_def)


lemma transMat_two:
  "transMat 2 0 1 0 [exp (- 3), exp 3] 0 [9, 9, 9, 9] = [1 / 2, 9, 1 / 2, 9]"
  by (simp add: transMat_def pow_def Let_def erf_0)

text \<open>The cells \<open>ix + jx\<cdot>nz\<close> for \<open>0 \<le> ix < nz\<close> and \<open>0 \<le> jx < nz\<close> lie inside an array
  of \<open>nz\<cdot>nz\<close> entries and are pairwise distinct.\<close>

lemma cell_lt:
  assumes "0 \<le> ix" "ix < nz" "0 \<le> jx" "jx \<le> nz - 1"
  shows "nat (ix + jx * nz) < nat (nz * nz)"
proof -
  from assms have "jx * nz \<le> (nz - 1) * nz" by (intro mult_right_mono) auto
  then have "ix + jx * nz < nz * nz" using assms by (simp add: algebra_simps)
  then show ?thesis using assms by simp
qed

lemma cell_inj:
  assumes "0 \<le> ix" "ix < nz" "0 \<le> jx" "0 \<le> jx'" "0 \<le> ix'" "ix' < nz"
  shows "nat (ix + jx * nz) = nat (ix' + jx' * nz) \<longleftrightarrow> ix = ix' \<and> jx = jx'"
proof
  assume "nat (ix + jx * nz) = nat (ix' + jx' * nz)"
  with assms have e: "ix + jx * nz = ix' + jx' * nz"
    by (smt (verit) mult_nonneg_nonneg nat_eq_iff)
  then have "(ix + jx * nz) mod nz = (ix' + jx' * nz) mod nz" by simp
  with assms have "ix = ix'" by simp
  with e assms show "ix = ix' \<and> jx = jx'" by simp
qed simp


lemma pow_2_half: "pow 2 0.5 = sqrt 2"
  by (simp add: pow_def powr_half_sqrt)

text \<open>One iteration of the loop of \<^verbatim>\<open>transMat\<close> stores the interior probability of
  column \<open>jx\<close> and subtracts it from the last column.\<close>

lemma transMat_col_upd:
  assumes "0 \<le> ix" "ix < nz" "1 \<le> jx" "jx \<le> nz - 2" "length P = nat (nz * nz)"
  shows "transMat_col nz mu sigma rho Z ix jx P =
     P[nat (ix + jx * nz) := norm_cdf (tauchen_edge nz mu sigma rho Z ix jx 0.5)
                              - norm_cdf (tauchen_edge nz mu sigma rho Z ix jx (- 0.5)),
       nat (ix + (nz - 1) * nz) := rd P (ix + (nz - 1) * nz)
           - (norm_cdf (tauchen_edge nz mu sigma rho Z ix jx 0.5)
              - norm_cdf (tauchen_edge nz mu sigma rho Z ix jx (- 0.5)))]"
proof -
  have lt: "nat (ix + jx * nz) < length P"
    using cell_lt[of ix nz jx] assms by simp
  have ne: "nat (ix + jx * nz) \<noteq> nat (ix + (nz - 1) * nz)"
    using cell_inj[of ix nz jx "nz - 1" ix] assms by simp
  have c: "nz * (nz - 1) = (nz - 1) * nz" by simp
  show ?thesis
    unfolding transMat_col_def Let_def c pow_2_half
    using lt ne by (simp add: norm_cdf_def tauchen_edge_def)
qed

lemma transMat_fold:
  fixes mu sigma rho :: real and Z P :: "real list" and ix nz n :: int
  assumes "0 \<le> ix" "ix < nz" "length P = nat (nz * nz)" "0 \<le> n" "n \<le> nz - 2"
  defines "b \<equiv> \<lambda>jx. norm_cdf (tauchen_edge nz mu sigma rho Z ix jx 0.5)
                       - norm_cdf (tauchen_edge nz mu sigma rho Z ix jx (- 0.5))"
  defines "F \<equiv> fold (transMat_col nz mu sigma rho Z ix) [1..n] P"
  shows "length F = length P \<and>
         rd F (ix + (nz - 1) * nz) = rd P (ix + (nz - 1) * nz) - (\<Sum>jx = 1..n. b jx) \<and>
         (\<forall>jx. 1 \<le> jx \<and> jx \<le> n \<longrightarrow> rd F (ix + jx * nz) = b jx) \<and>
         (\<forall>i. i \<noteq> nat (ix + (nz - 1) * nz) \<and> (\<forall>jx. 1 \<le> jx \<and> jx \<le> n \<longrightarrow> i \<noteq> nat (ix + jx * nz))
              \<longrightarrow> F ! i = P ! i)"
  using assms(4,5) unfolding F_def
proof (induction n rule: int_ge_induct)
  case base
  show ?case by simp
next
  case (step n)
  let ?F = "fold (transMat_col nz mu sigma rho Z ix) [1..n] P"
  let ?L = "nat (ix + (nz - 1) * nz)"
  let ?c = "nat (ix + (n + 1) * nz)"
  from step have IH: "length ?F = length P"
    "?F ! ?L = P ! ?L - (\<Sum>jx = 1..n. b jx)"
    "\<forall>jx. 1 \<le> jx \<and> jx \<le> n \<longrightarrow> rd ?F (ix + jx * nz) = b jx"
    "\<forall>i. i \<noteq> ?L \<and> (\<forall>jx. 1 \<le> jx \<and> jx \<le> n \<longrightarrow> i \<noteq> nat (ix + jx * nz)) \<longrightarrow> ?F ! i = P ! i"
    by auto
  have up: "[1..n + 1] = [1..n] @ [n + 1]" using step.hyps by (simp add: upto_rec2)
  have F': "fold (transMat_col nz mu sigma rho Z ix) [1..n + 1] P
      = ?F[?c := b (n + 1), ?L := ?F ! ?L - b (n + 1)]"
    unfolding up fold_append comp_def fold.simps id_def
    using transMat_col_upd[of ix nz "n + 1" ?F mu sigma rho Z] assms(1-3) step IH(1)
    by (simp add: b_def)
  have lt: "?c < length P" "?L < length P"
    using cell_lt[of ix nz "n + 1"] cell_lt[of ix nz "nz - 1"] assms(1-3) step by simp_all
  have ne: "?c \<noteq> ?L"
    using cell_inj[of ix nz "n + 1" "nz - 1" ix] assms step by simp
  have ne': "nat (ix + jx * nz) \<noteq> ?c" "nat (ix + jx * nz) \<noteq> ?L" if "1 \<le> jx" "jx \<le> n" for jx
    using cell_inj[of ix nz jx "n + 1" ix] cell_inj[of ix nz jx "nz - 1" ix] assms step that
    by simp_all
  have s: "(\<Sum>jx = 1..n + 1. b jx) = (\<Sum>jx = 1..n. b jx) + b (n + 1)"
  proof -
    have "{1..n + 1} = insert (n + 1) {1..n}" using step.hyps by auto
    then show ?thesis by simp
  qed
  have A: "rd (?F[?c := b (n + 1), ?L := ?F ! ?L - b (n + 1)]) (ix + (nz - 1) * nz)
      = rd P (ix + (nz - 1) * nz) - (\<Sum>jx = 1..n + 1. b jx)"
    using lt IH(1,2) s by simp
  have B: "rd (?F[?c := b (n + 1), ?L := ?F ! ?L - b (n + 1)]) (ix + jx * nz) = b jx"
    if "1 \<le> jx" "jx \<le> n + 1" for jx
  proof (cases "jx = n + 1")
    case True
    then show ?thesis using lt ne IH(1) by simp
  next
    case False
    with that have "jx \<le> n" by simp
    with ne'[OF that(1) this] IH(3) that(1) show ?thesis by simp
  qed
  have C: "?F[?c := b (n + 1), ?L := ?F ! ?L - b (n + 1)] ! i = P ! i"
    if "i \<noteq> ?L" "\<forall>jx. 1 \<le> jx \<and> jx \<le> n + 1 \<longrightarrow> i \<noteq> nat (ix + jx * nz)" for i
  proof -
    from that(2) step.hyps have "i \<noteq> ?c" by auto
    moreover from that have "?F ! i = P ! i" using IH(4) by auto
    ultimately show ?thesis using that(1) by simp
  qed
  show ?case unfolding F' using A B C IH(1) by simp
qed


text \<open>The kernel for origin \<open>ix\<close> stores the probability of moving from \<open>ix\<close> to \<open>jx\<close>
  in cell \<open>ix + jx\<cdot>nz\<close>, and leaves every other cell as it was.\<close>

lemma transMat_cells:
  fixes mu sigma rho :: real and Z P :: "real list" and ix nz :: int
  assumes "0 \<le> ix" "ix < nz" "2 \<le> nz" "length P = nat (nz * nz)"
  defines "T \<equiv> transMat nz mu sigma rho Z ix P"
  shows "length T = length P"
    and "\<And>jx. 0 \<le> jx \<Longrightarrow> jx \<le> nz - 1 \<Longrightarrow> rd T (ix + jx * nz) = tauchen_prob nz mu sigma rho Z ix jx"
    and "\<And>i. (\<forall>jx. 0 \<le> jx \<and> jx \<le> nz - 1 \<longrightarrow> i \<noteq> nat (ix + jx * nz)) \<Longrightarrow> T ! i = P ! i"
proof -
  define a where "a = norm_cdf (tauchen_edge nz mu sigma rho Z ix 0 0.5)"
  define b where "b = (\<lambda>jx. norm_cdf (tauchen_edge nz mu sigma rho Z ix jx 0.5)
                       - norm_cdf (tauchen_edge nz mu sigma rho Z ix jx (- 0.5)))"
  let ?L = "nat (ix + (nz - 1) * nz)"
  define P2 where "P2 = P[nat ix := a, ?L := 1 - a]"
  have lt: "nat ix < length P" "?L < length P"
    using cell_lt[of ix nz 0] cell_lt[of ix nz "nz - 1"] assms(1-4) by simp_all
  have ne: "nat ix \<noteq> ?L"
    using cell_inj[of ix nz 0 "nz - 1" ix] assms(1-3) by simp
  have c: "nz * (nz - 1) = (nz - 1) * nz" by simp
  have T: "T = fold (transMat_col nz mu sigma rho Z ix) [1..nz - 2] P2"
    unfolding T_def transMat_def Let_def c pow_2_half P2_def a_def
    using lt by (simp add: norm_cdf_def tauchen_edge_def)
  have len2: "length P2 = nat (nz * nz)" using assms(4) by (simp add: P2_def)
  from assms(3) have n: "0 \<le> nz - 2" "nz - 2 \<le> nz - 2" by simp_all
  from transMat_fold[OF assms(1,2) len2 n, where mu = mu and sigma = sigma and rho = rho and Z = Z]
  have F: "length T = length P2"
    "rd T (ix + (nz - 1) * nz) = rd P2 (ix + (nz - 1) * nz) - (\<Sum>jx = 1..nz - 2. b jx)"
    "\<And>jx. 1 \<le> jx \<Longrightarrow> jx \<le> nz - 2 \<Longrightarrow> rd T (ix + jx * nz) = b jx"
    "\<And>i. i \<noteq> ?L \<Longrightarrow> (\<forall>jx. 1 \<le> jx \<and> jx \<le> nz - 2 \<longrightarrow> i \<noteq> nat (ix + jx * nz)) \<Longrightarrow> T ! i = P2 ! i"
    unfolding T b_def by auto
  show "length T = length P" using F(1) by (simp add: P2_def)
  show "rd T (ix + jx * nz) = tauchen_prob nz mu sigma rho Z ix jx"
    if "0 \<le> jx" "jx \<le> nz - 1" for jx
  proof -
    have "jx = 0 \<or> jx = nz - 1 \<or> (1 \<le> jx \<and> jx \<le> nz - 2)" using that by linarith
    then consider (first) "jx = 0" | (last) "jx = nz - 1" | (mid) "1 \<le> jx" "jx \<le> nz - 2"
      by blast
    then show ?thesis
    proof cases
      case first
      have "\<forall>jx. 1 \<le> jx \<and> jx \<le> nz - 2 \<longrightarrow> nat ix \<noteq> nat (ix + jx * nz)"
        using cell_inj[of ix nz 0 _ ix] assms(1-3) by auto
      from F(4)[OF ne this] have "T ! nat ix = a" using lt ne by (simp add: P2_def)
      with first show ?thesis by (simp add: tauchen_prob_def a_def)
    next
      case last
      have "rd P2 (ix + (nz - 1) * nz) = 1 - a" using lt by (simp add: P2_def)
      with F(2) last assms(3) show ?thesis
        by (simp add: tauchen_prob_def a_def b_def)
    next
      case mid
      with F(3)[OF mid] assms(3) show ?thesis by (simp add: tauchen_prob_def b_def)
    qed
  qed
  show "T ! i = P ! i" if h: "\<forall>jx. 0 \<le> jx \<and> jx \<le> nz - 1 \<longrightarrow> i \<noteq> nat (ix + jx * nz)" for i
  proof -
    from h assms(3) have "i \<noteq> ?L" "i \<noteq> nat ix" by (auto dest: spec[of _ "nz - 1"] spec[of _ 0])
    moreover from h have "\<forall>jx. 1 \<le> jx \<and> jx \<le> nz - 2 \<longrightarrow> i \<noteq> nat (ix + jx * nz)" by auto
    ultimately show ?thesis using F(4)[of i] by (simp add: P2_def)
  qed
qed

lemma tauchen_prob_row:
  assumes "2 \<le> nz"
  shows "(\<Sum>j = 0..nz - 1. tauchen_prob nz mu sigma rho Z i j) = 1"
proof -
  let ?f = "tauchen_prob nz mu sigma rho Z i"
  have set: "{0..nz - 1} = insert 0 (insert (nz - 1) {1..nz - 2})" using assms by auto
  have mid: "(\<Sum>j = 1..nz - 2. ?f j)
      = (\<Sum>j' = 1..nz - 2. norm_cdf (tauchen_edge nz mu sigma rho Z i j' 0.5)
                                   - norm_cdf (tauchen_edge nz mu sigma rho Z i j' (- 0.5)))"
    by (rule sum.cong) (auto simp: tauchen_prob_def)
  have "(\<Sum>j = 0..nz - 1. ?f j) = ?f 0 + (?f (nz - 1) + (\<Sum>j = 1..nz - 2. ?f j))"
    unfolding set using assms by simp
  also have "\<dots> = 1" unfolding mid using assms by (simp add: tauchen_prob_def)
  finally show ?thesis .
qed

text \<open>For \<^verbatim>\<open>transMat\<close> the cells of one origin index sum to one (in exact arithmetic).\<close>

lemma transMat_row_sum:
  assumes "0 \<le> ix" "ix < nz" "2 \<le> nz" "length P = nat (nz * nz)"
  shows "(\<Sum>jx = 0..nz - 1. rd (transMat nz mu sigma rho Z ix P) (ix + jx * nz)) = 1"
proof -
  have "(\<Sum>jx = 0..nz - 1. rd (transMat nz mu sigma rho Z ix P) (ix + jx * nz))
      = (\<Sum>jx = 0..nz - 1. tauchen_prob nz mu sigma rho Z ix jx)"
    by (rule sum.cong) (simp_all add: transMat_cells(2)[OF assms])
  with tauchen_prob_row[OF assms(3)] show ?thesis by simp
qed

lemma transMat_all_fold:
  fixes mu sigma rho :: real and Z P :: "real list" and nz n :: int
  assumes "2 \<le> nz" "length P = nat (nz * nz)" "- 1 \<le> n" "n \<le> nz - 1"
  defines "F \<equiv> fold (transMat nz mu sigma rho Z) [0..n] P"
  shows "length F = length P \<and>
         (\<forall>i j. 0 \<le> i \<and> i \<le> n \<and> 0 \<le> j \<and> j \<le> nz - 1
                \<longrightarrow> rd F (i + j * nz) = tauchen_prob nz mu sigma rho Z i j)"
  using assms(3,4) unfolding F_def
proof (induction n rule: int_ge_induct)
  case base
  show ?case by simp
next
  case (step n)
  let ?F = "fold (transMat nz mu sigma rho Z) [0..n] P"
  from step have IH: "length ?F = nat (nz * nz)"
    "\<And>i j. 0 \<le> i \<Longrightarrow> i \<le> n \<Longrightarrow> 0 \<le> j \<Longrightarrow> j \<le> nz - 1
        \<Longrightarrow> rd ?F (i + j * nz) = tauchen_prob nz mu sigma rho Z i j"
    using assms(2) by auto
  have up: "[0..n + 1] = [0..n] @ [n + 1]" using step.hyps by (simp add: upto_rec2)
  have F': "fold (transMat nz mu sigma rho Z) [0..n + 1] P = transMat nz mu sigma rho Z (n + 1) ?F"
    unfolding up by simp
  from step have r: "0 \<le> n + 1" "n + 1 < nz" by simp_all
  note tc = transMat_cells[OF r assms(1) IH(1), where mu = mu and sigma = sigma and rho = rho and Z = Z]
  have "rd (transMat nz mu sigma rho Z (n + 1) ?F) (i + j * nz) = tauchen_prob nz mu sigma rho Z i j"
    if "0 \<le> i" "i \<le> n + 1" "0 \<le> j" "j \<le> nz - 1" for i j
  proof (cases "i = n + 1")
    case True
    with tc(2)[OF that(3,4)] show ?thesis by simp
  next
    case False
    with that have i: "i \<le> n" "i < nz" using step.prems by simp_all
    have "\<forall>jx. 0 \<le> jx \<and> jx \<le> nz - 1 \<longrightarrow> nat (i + j * nz) \<noteq> nat (n + 1 + jx * nz)"
      using cell_inj[of i nz j _ "n + 1"] that(1,3) i r False by auto
    from tc(3)[OF this] IH(2)[OF that(1) i(1) that(3,4)] show ?thesis by simp
  qed
  with tc(1) IH(1) assms(2) show ?case unfolding F' by simp
qed

lemma transMat_all_cells:
  assumes "2 \<le> nz" "length P = nat (nz * nz)" "0 \<le> i" "i < nz" "0 \<le> j" "j < nz"
  shows "rd (transMat_all nz mu sigma rho Z P) (i + j * nz) = tauchen_prob nz mu sigma rho Z i j"
  using transMat_all_fold[OF assms(1,2), where n = "nz - 1" and mu = mu and sigma = sigma
      and rho = rho and Z = Z] assms
  by (simp add: transMat_all_def)


lemma transMat_all_two:
  "transMat_all 2 0 1 0 [exp (- 3), exp 3] [9, 9, 9, 9] = [1 / 2, 1 / 2, 1 / 2, 1 / 2]"
  by (simp add: transMat_all_def transMat_def pow_def Let_def erf_0 upto_rec1)

text \<open>Claim C6, amended. Let \<open>P\<close> be the array the discretiser \<^verbatim>\<open>transMat\<close> filled
  (\<open>nz \<ge> 2\<close>) and \<open>j\<close> a productivity index. The probability of moving from \<open>j\<close> to
  \<open>z'\<close> is stored at the flat offset \<open>j + z'\<cdot>nz\<close> (the origin index varies fastest), and
  that is the element which multiplies \<open>V0[k', z']\<close> in the expectation of the two
  maximisers (\<open>Exp_loop\<close> with the pointer \<^verbatim>\<open>&P[0]+j\<close>) and in the policy-fixed
  update.\<close>

theorem expectation_reads_written_cells:
  assumes "2 \<le> nz" "length P = nat (nz * nz)" "0 \<le> j" "j < nz"
    "vf_P c = transMat_all nz mu sigma rho Z P" "vf_nz c = nz" "0 \<le> hx" "vfStep_jx c hx = j"
  shows "(\<forall>z'\<in>{0..nz - 1}. rd (vf_P c) (j + z' * nz) = tauchen_prob nz mu sigma rho Z j z') \<and>
         Exp_loop nk nz (vf_P c, j) (V0, klo) l
           = (\<Sum>z' = 0..nz - 1. tauchen_prob nz mu sigma rho Z j z' * rd V0 (klo + (l + z' * nk))) \<and>
         vfStep_howard c hx G
           = pow (vfStep_ydepK c hx - rd (vf_K c) (c_int (rd G hx))) (1 - vf_eta c) / (1 - vf_eta c)
             + vf_beta c * (\<Sum>z' = 0..nz - 1. tauchen_prob nz mu sigma rho Z j z'
                               * rd (vf_V0 c) (c_int (rd G hx) + z' * vf_nk c))"
proof -
  have cells: "rd (vf_P c) (j + z' * nz) = tauchen_prob nz mu sigma rho Z j z'"
    if "z' \<in> {0..nz - 1}" for z'
    using transMat_all_cells[OF assms(1,2,3,4), of z' mu sigma rho Z] that assms(5) by simp
  have e: "Exp_loop nk nz (vf_P c, j) (V0, klo) l
           = (\<Sum>z' = 0..nz - 1. tauchen_prob nz mu sigma rho Z j z' * rd V0 (klo + (l + z' * nk)))"
    unfolding Exp_loop_sum by (rule sum.cong) (simp_all add: cells)
  have h: "vfStep_howard c hx G
           = pow (vfStep_ydepK c hx - rd (vf_K c) (c_int (rd G hx))) (1 - vf_eta c) / (1 - vf_eta c)
             + vf_beta c * (\<Sum>z' = 0..nz - 1. rd (vf_P c) (j + z' * nz)
                               * rd (vf_V0 c) (c_int (rd G hx) + z' * vf_nk c))"
    using vfStep_cell[OF assms(7), of c] assms(6,8)
    by (simp add: vfStep_howard_def Let_def fold_add_upto)
  have "(\<Sum>z' = 0..nz - 1. rd (vf_P c) (j + z' * nz) * rd (vf_V0 c) (c_int (rd G hx) + z' * vf_nk c))
      = (\<Sum>z' = 0..nz - 1. tauchen_prob nz mu sigma rho Z j z'
                               * rd (vf_V0 c) (c_int (rd G hx) + z' * vf_nk c))"
    by (rule sum.cong) (simp_all add: cells)
  with h e cells show ?thesis by simp
qed

theorem expectation_reads_written_cells_witness:
  "vf_P cfg_two = transMat_all 2 0 1 0 [exp (- 3), exp 3] [9, 9, 9, 9] \<and> vf_nz cfg_two = 2 \<and>
   vfStep_jx cfg_two 0 = 0 \<and>
   rd (vf_P cfg_two) (0 + 1 * 2) = tauchen_prob 2 0 1 0 [exp (- 3), exp 3] 0 1 \<and>
   Exp_loop 1 2 (vf_P cfg_two, 0) ([0, 1], 0) 0
      = (\<Sum>z' = 0..2 - 1. tauchen_prob 2 0 1 0 [exp (- 3), exp 3] 0 z' * rd [0, 1] (0 + (0 + z' * 1)))"
proof -
  have h: "vf_P cfg_two = transMat_all 2 0 1 0 [exp (- 3), exp 3] [9, 9, 9, 9]" "vf_nz cfg_two = 2"
    "vfStep_jx cfg_two 0 = 0" "length [9, 9, 9, 9 :: real] = nat (2 * 2)"
    by (simp_all add: cfg_two_def vfStep_jx_def vfStep_ix_def)
  note t = expectation_reads_written_cells[of 2 "[9, 9, 9, 9]" 0 cfg_two 0 1 0
      "[exp (- 3), exp 3]" 0, OF _ h(4) _ _ h(1,2) _ h(3), of 1 "[0, 1]" 0 0]
  from t have "\<forall>z'\<in>{0..2 - 1}. rd (vf_P cfg_two) (0 + z' * 2)
      = tauchen_prob 2 0 1 0 [exp (- 3), exp 3] 0 z'" by simp
  then have "rd (vf_P cfg_two) (0 + 1 * 2) = tauchen_prob 2 0 1 0 [exp (- 3), exp 3] 0 1"
    by (rule bspec) simp
  moreover from t have "Exp_loop 1 2 (vf_P cfg_two, 0) ([0, 1], 0) 0
      = (\<Sum>z' = 0..2 - 1. tauchen_prob 2 0 1 0 [exp (- 3), exp 3] 0 z' * rd [0, 1] (0 + (0 + z' * 1)))"
    by simp
  ultimately show ?thesis using h(1-3) by blast
qed

text \<open>Claim C6 as stated, with entry \<open>(j, z')\<close> at offset \<open>j\<cdot>nz + z'\<close>, fails for
  \<open>nz = 2\<close>, \<open>j = 0\<close>, \<open>z' = 1\<close>: on an array filled with \<open>9\<close> the kernel for origin
  \<open>0\<close> stores its two probabilities at offsets \<open>0\<close> and \<open>2\<close> and leaves offset
  \<open>0\<cdot>2 + 1 = 1\<close> alone; and the expectation for \<open>j = 0\<close> with \<open>V0 = [0, 1]\<close>
  (\<open>nk = 1\<close>) is \<open>P[2] \<cdot> 1 = 1/2\<close>, not \<open>P[1] \<cdot> 1 = 9\<close>.\<close>

theorem P_not_row_major_counterexample:
  "transMat 2 0 1 0 [exp (- 3), exp 3] 0 [9, 9, 9, 9] = [1 / 2, 9, 1 / 2, 9] \<and>
   Exp_loop 1 2 ([1 / 2, 9, 1 / 2, 9], 0) ([0, 1], 0) 0 = 1 / 2"
  by (simp add: transMat_two Exp_loop_def upto_rec1)


text \<open>Claim C1, at an input where \<^verbatim>\<open>ar1\<close> of ar1.cpp departs from it: \<open>nz = 2\<close>,
  \<open>mu = 0\<close>, \<open>rho = 0\<close>, \<open>sigma = 1\<close>, \<open>lambda = 3\<close>, on zero-initialised vectors.
  Line 57 stores the first-column probability of origin \<open>ix\<close> in \<^verbatim>\<open>P[ix*nz]\<close>, while
  every other column of that origin goes to \<^verbatim>\<open>P[ix+nz*jx]\<close>. So cell \<open>1\<close> (origin
  \<open>1\<close>, column \<open>0\<close>) is never written, and cell \<open>2\<close> (origin \<open>0\<close>, last column) is
  overwritten by origin \<open>1\<close>. The cells \<open>P[1]\<close>, \<open>P[3]\<close> of origin \<open>1\<close> sum to
  \<open>1/2\<close>; read row-major, the row \<open>P[0]\<close>, \<open>P[1]\<close> sums to \<open>1/2\<close> as well.\<close>

theorem ar1_two_states:
  "ar1 2 0 0 1 3 [0, 0] [0, 0, 0, 0] = ([exp (- 3), exp 3], [1 / 2, 0, 1 / 2, 1 / 2])"
  by (simp add: ar1_def ar1_row_def pow_def Let_def upto_rec1 erf_0)

section \<open>The capital grid\<close>

text \<open>With \<open>alpha\<close> in \<open>(0,1)\<close> and a positive factor \<open>1/beta - 1 + delta\<close>, the steady-state
  capital \<open>k*(z)\<close> is positive and nondecreasing in \<open>z > 0\<close> (the exponent
  \<open>1/(alpha - 1)\<close> is negative).\<close>

lemma kstar_pos:
  assumes "0 < alpha" "0 < 1 / beta - 1 + delta" "0 < z"
  shows "0 < kstar alpha beta delta z"
  using assms by (simp add: kstar_def)

lemma kstar_mono:
  assumes "0 < alpha" "alpha < 1" "0 < 1 / beta - 1 + delta" "0 < z" "z \<le> z'"
  shows "kstar alpha beta delta z \<le> kstar alpha beta delta z'"
proof -
  let ?c = "1 / beta - 1 + delta"
  have "1 / (alpha * z') \<le> 1 / (alpha * z)"
    using assms by (intro divide_left_mono mult_pos_pos mult_left_mono) auto
  then have le: "(1 / (alpha * z')) * ?c \<le> (1 / (alpha * z)) * ?c"
    using assms(3) by (intro mult_right_mono) auto
  have pos: "0 < (1 / (alpha * z')) * ?c" using assms by simp
  have "1 / (alpha - 1) \<le> 0" using assms(2) by simp
  from powr_mono2'[OF this pos le] show ?thesis by (simp add: kstar_def)
qed

lemma kGrid_affine:
  assumes "0 < alpha" "0 < rd Z 0" "0 < rd Z (nz - 1)" "0 < 1 / beta - 1 + delta"
  shows "kGrid nk nz beta alpha delta Z ix =
     0.95 * kstar alpha beta delta (rd Z 0)
     + (1.05 * kstar alpha beta delta (rd Z (nz - 1)) - 0.95 * kstar alpha beta delta (rd Z 0))
         / real_of_int (nk - 1) * real_of_int ix"
proof -
  have "0 < (1 / (alpha * rd Z 0)) * (1 / beta - 1 + delta)"
    "0 < (1 / (alpha * rd Z (nz - 1))) * (1 / beta - 1 + delta)"
    using assms by simp_all
  then show ?thesis
    by (simp only: kGrid_def kstar_def pow_pos Let_def)
qed

text \<open>The values of \<^verbatim>\<open>kGrid\<close>: end points, spacing, order and sign.\<close>

lemma kGrid_props:
  assumes "2 \<le> nk" "0 < alpha" "alpha < 1" "0 < beta" "beta < 1" "0 < 1 / beta - 1 + delta"
    "1 \<le> nz" "length Z = nat nz" "sorted_wrt (<) Z" "\<forall>z\<in>set Z. 0 < z"
  shows "kGrid nk nz beta alpha delta Z 0 = 0.95 * kstar alpha beta delta (rd Z 0) \<and>
         kGrid nk nz beta alpha delta Z (nk - 1) = 1.05 * kstar alpha beta delta (rd Z (nz - 1)) \<and>
         (\<forall>ix. kGrid nk nz beta alpha delta Z (ix + 1) - kGrid nk nz beta alpha delta Z ix
                = (kGrid nk nz beta alpha delta Z (nk - 1) - kGrid nk nz beta alpha delta Z 0)
                    / real_of_int (nk - 1)) \<and>
         (\<forall>ix jx. ix < jx \<longrightarrow> kGrid nk nz beta alpha delta Z ix < kGrid nk nz beta alpha delta Z jx) \<and>
         (\<forall>ix. 0 \<le> ix \<longrightarrow> 0 < kGrid nk nz beta alpha delta Z ix)"
proof -
  let ?K = "kGrid nk nz beta alpha delta Z"
  let ?lo = "kstar alpha beta delta (rd Z 0)"
  let ?hi = "kstar alpha beta delta (rd Z (nz - 1))"
  from assms(7,8) have i0: "nat 0 < length Z" "nat (nz - 1) < length Z" by simp_all
  then have z0: "0 < rd Z 0" and z1: "0 < rd Z (nz - 1)" using assms(10) by (metis nth_mem)+
  have z01: "rd Z 0 \<le> rd Z (nz - 1)"
  proof (cases "nz = 1")
    case True
    then show ?thesis by simp
  next
    case False
    with assms(7,8) have "nat 0 < nat (nz - 1)" "nat (nz - 1) < length Z" by simp_all
    from sorted_wrt_nth_less[OF assms(9) this] show ?thesis by simp
  qed
  have lo: "0 < ?lo" by (rule kstar_pos[OF assms(2,6) z0])
  have lohi: "?lo \<le> ?hi" by (rule kstar_mono[OF assms(2,3,6) z0 z01])
  have nk1: "0 < real_of_int (nk - 1)" using assms(1) by simp
  define k0 where "k0 = 0.95 * ?lo"
  define st where "st = (1.05 * ?hi - k0) / real_of_int (nk - 1)"
  have "k0 < 1.05 * ?lo" using lo by (simp add: k0_def)
  also have "1.05 * ?lo \<le> 1.05 * ?hi" using lohi by simp
  finally have "0 < 1.05 * ?hi - k0" by simp
  then have step: "0 < st" unfolding st_def using nk1 by (rule divide_pos_pos)
  have K: "?K ix = k0 + st * real_of_int ix" for ix
    unfolding st_def k0_def by (rule kGrid_affine[OF assms(2) z0 z1 assms(6)])
  have first: "?K 0 = 0.95 * ?lo" by (simp add: K k0_def)
  have "st * real_of_int (nk - 1) = 1.05 * ?hi - k0" using nk1 by (simp add: st_def)
  then have last: "?K (nk - 1) = 1.05 * ?hi" by (simp add: K)
  have "(?K (nk - 1) - ?K 0) / real_of_int (nk - 1) = st"
    unfolding K using nk1 by simp
  moreover have "?K (ix + 1) - ?K ix = st" for ix by (simp add: K algebra_simps)
  ultimately have spacing:
    "?K (ix + 1) - ?K ix = (?K (nk - 1) - ?K 0) / real_of_int (nk - 1)" for ix by simp
  have mono: "?K ix < ?K jx" if "ix < jx" for ix jx
  proof -
    from that have "real_of_int ix < real_of_int jx" by simp
    with step have "st * real_of_int ix < st * real_of_int jx" by simp
    then show ?thesis by (simp add: K)
  qed
  have pos: "0 < ?K ix" if "0 \<le> ix" for ix
  proof -
    from that step have "0 \<le> st * real_of_int ix" by simp
    moreover have "0 < k0" using lo by (simp add: k0_def)
    ultimately show ?thesis by (simp add: K)
  qed
  from first last spacing mono pos show ?thesis by blast
qed

text \<open>Claim C8. For \<open>nk \<ge> 2\<close>, \<open>alpha\<close> and \<open>beta\<close> in \<open>(0,1)\<close>, a depreciation rate
  \<open>delta \<ge> 0\<close> and a strictly increasing positive grid \<open>Z\<close> of \<open>nz \<ge> 1\<close> points, the
  values \<open>K[ix]\<close> of \<^verbatim>\<open>kGrid\<close> start at \<open>0.95 \<cdot> k*(Z[0])\<close>, reach \<open>1.05 \<cdot> k*(Z[nz-1])\<close>
  at \<open>ix = nk - 1\<close>, have the constant spacing \<open>(K[nk-1] - K[0])/(nk - 1)\<close>, increase
  strictly, and are positive. (Both powers have a positive base, where \<^verbatim>\<open>pow\<close> is the
  real power.)\<close>

theorem kGrid_grid:
  assumes "2 \<le> nk" "0 < alpha" "alpha < 1" "0 < beta" "beta < 1" "0 \<le> delta"
    "1 \<le> nz" "length Z = nat nz" "sorted_wrt (<) Z" "\<forall>z\<in>set Z. 0 < z"
  shows "kGrid nk nz beta alpha delta Z 0 = 0.95 * kstar alpha beta delta (rd Z 0) \<and>
         kGrid nk nz beta alpha delta Z (nk - 1) = 1.05 * kstar alpha beta delta (rd Z (nz - 1)) \<and>
         (\<forall>ix. kGrid nk nz beta alpha delta Z (ix + 1) - kGrid nk nz beta alpha delta Z ix
                = (kGrid nk nz beta alpha delta Z (nk - 1) - kGrid nk nz beta alpha delta Z 0)
                    / real_of_int (nk - 1)) \<and>
         (\<forall>ix jx. ix < jx \<longrightarrow> kGrid nk nz beta alpha delta Z ix < kGrid nk nz beta alpha delta Z jx) \<and>
         (\<forall>ix. 0 \<le> ix \<longrightarrow> 0 < kGrid nk nz beta alpha delta Z ix)"
proof -
  have "1 < 1 / beta" using assms(4,5) by simp
  with assms(6) have "0 < 1 / beta - 1 + delta" by linarith
  from kGrid_props[OF assms(1-5) this assms(7-10)] show ?thesis .
qed

theorem kGrid_grid_witness:
  "(2::int) \<le> 3 \<and> sorted_wrt (<) [1, 2 :: real] \<and>
   kGrid 3 2 (1 / 2) (1 / 2) 1 [1, 2] 0 = 0.95 * kstar (1 / 2) (1 / 2) 1 (rd [1, 2] 0) \<and>
   kGrid 3 2 (1 / 2) (1 / 2) 1 [1, 2] (3 - 1) = 1.05 * kstar (1 / 2) (1 / 2) 1 (rd [1, 2] (2 - 1)) \<and>
   kGrid 3 2 (1 / 2) (1 / 2) 1 [1, 2] 0 < kGrid 3 2 (1 / 2) (1 / 2) 1 [1, 2] 1 \<and>
   0 < kGrid 3 2 (1 / 2) (1 / 2) 1 [1, 2] 0"
proof -
  have h: "(2::int) \<le> 3" "(0::real) < 1 / 2" "(1::real) / 2 < 1" "(0::real) \<le> 1"
    "(1::int) \<le> 2" "length [1, 2 :: real] = nat 2" "sorted_wrt (<) [1, 2 :: real]"
    "\<forall>z\<in>set [1, 2 :: real]. 0 < z" by simp_all
  from kGrid_grid[OF h(1,2,3,2,3,4,5,6,7,8)] h(1,7) show ?thesis by simp
qed

text \<open>On the grid \<^verbatim>\<open>kGrid\<close> builds, with \<open>alpha\<close>, \<open>beta\<close> in \<open>(0,1)\<close> and
  \<open>0 \<le> delta \<le> 1\<close>, output at the first capital point covers its depreciation, so the
  resources of every state reach \<open>K[0]\<close>.\<close>

lemma kGrid_first_covers_depreciation:
  assumes a: "0 < alpha" "alpha < 1" and be: "0 < beta" "beta < 1" and d: "0 \<le> delta"
    and z: "0 < z"
  defines "k0 \<equiv> 0.95 * kstar alpha beta delta z"
  shows "0 < k0" and "delta * k0 \<le> z * pow k0 alpha"
proof -
  let ?c = "1 / beta - 1 + delta"
  let ?B = "(1 / (alpha * z)) * ?c"
  have "1 < 1 / beta" using be by simp
  then have c: "0 < ?c" "delta \<le> ?c" using d by linarith+
  have B: "0 < ?B" using a z c by simp
  have ks: "0 < kstar alpha beta delta z" by (rule kstar_pos[OF a(1) c(1) z])
  then show k0: "0 < k0" by (simp add: k0_def)
  have e: "1 / (alpha - 1) * (alpha - 1) = 1" using a by simp
  have "kstar alpha beta delta z powr (alpha - 1) = ?B powr (1 / (alpha - 1) * (alpha - 1))"
    unfolding kstar_def by (rule powr_powr)
  also have "\<dots> = ?B" unfolding e by (rule powr_one) (rule less_imp_le[OF B])
  finally have ksp: "kstar alpha beta delta z powr (alpha - 1) = ?B" .
  define q :: real where "q = 0.95"
  define ks where "ks = kstar alpha beta delta z"
  have q: "0 < q" "q \<le> 1" by (simp_all add: q_def)
  have "(1::real) powr (alpha - 1) \<le> q powr (alpha - 1)"
    using a q by (intro powr_mono2') simp_all
  then have one: "1 \<le> q powr (alpha - 1)" by simp
  have "k0 = q * ks" by (simp add: k0_def q_def ks_def)
  then have "k0 powr (alpha - 1) = q powr (alpha - 1) * ks powr (alpha - 1)"
    using q ks by (simp only: ks_def[symmetric] powr_mult)
  then have "k0 powr (alpha - 1) = q powr (alpha - 1) * ?B"
    by (simp only: ks_def ksp)
  moreover have "1 * ?B \<le> q powr (alpha - 1) * ?B"
    using one B by (intro mult_right_mono) simp_all
  ultimately have "?B \<le> k0 powr (alpha - 1)" by simp
  then have "z * ?B \<le> z * k0 powr (alpha - 1)"
    using z by (intro mult_left_mono) simp_all
  moreover have "z * ?B = ?c / alpha" using z a by (simp add: field_simps)
  moreover have "?c \<le> ?c / alpha"
  proof -
    have "?c * alpha \<le> ?c * 1" using a c(1) by (intro mult_left_mono) simp_all
    then show ?thesis using a(1) by (simp only: pos_le_divide_eq mult_1_right)
  qed
  ultimately have "delta \<le> z * k0 powr (alpha - 1)" using c(2) by linarith
  then have "delta * k0 \<le> (z * k0 powr (alpha - 1)) * k0"
    using k0 by (intro mult_right_mono) simp_all
  moreover have "k0 powr (alpha - 1) * k0 = k0 powr alpha"
    using k0 by (simp add: powr_diff)
  ultimately show "delta * k0 \<le> z * pow k0 alpha" by (simp add: pow_pos[OF k0] mult.assoc)
qed

lemma rd_map_upto:
  assumes "0 \<le> i" "i \<le> n"
  shows "rd (map f [0..n]) i = f i"
proof -
  from assms have "nat i < length [0..n]" by simp
  moreover from assms have "[0..n] ! nat i = 0 + int (nat i)" by (intro nth_upto) simp
  ultimately show ?thesis using assms by simp
qed

lemma kGrid_states_feasible:
  assumes nk: "2 \<le> nk" and a: "0 < alpha" "alpha < 1" and be: "0 < beta" "beta < 1"
    and d: "0 \<le> delta" "delta \<le> 1"
    and Z: "1 \<le> nz" "length Z = nat nz" "sorted_wrt (<) Z" "\<forall>z\<in>set Z. 0 < z"
    and c: "vf_K c = map (kGrid nk nz beta alpha delta Z) [0..nk - 1]" "vf_Z c = Z"
      "vf_nk c = nk" "vf_alpha c = alpha" "vf_delta c = delta"
    and hx: "0 \<le> hx" "hx < nk * nz"
  shows "rd (vf_K c) 0 \<le> vfStep_ydepK c hx"
proof -
  let ?K = "kGrid nk nz beta alpha delta Z"
  let ?ix = "hx mod nk" and ?jx = "hx div nk"
  have "1 < 1 / beta" using be by simp
  then have cpos: "0 < 1 / beta - 1 + delta" using d(1) by linarith
  note kp = kGrid_props[OF nk a be cpos Z]
  from nk hx have ix: "0 \<le> ?ix" "?ix \<le> nk - 1" by simp_all
  have "nk * ?jx \<le> hx" using mult_div_mod_eq[of nk hx] ix(1) by linarith
  with hx(2) have "nk * ?jx < nk * nz" by linarith
  with nk have jx1: "?jx < nz" by simp
  from nk hx(1) have jx0: "0 \<le> ?jx" by (simp add: pos_imp_zdiv_nonneg_iff)
  have jx: "vfStep_jx c hx = ?jx"
    using nk by (simp add: vfStep_jx_def vfStep_ix_def c(3) minus_mod_eq_mult_div)
  have K0: "rd (vf_K c) 0 = ?K 0" unfolding c(1) using nk by (intro rd_map_upto) simp_all
  have Kix: "rd (vf_K c) ?ix = ?K ?ix" unfolding c(1) using ix by (intro rd_map_upto)
  have z0: "0 < rd Z 0" using Z by (simp add: nth_mem[of 0 Z, simplified])
  have zj: "rd Z 0 \<le> rd Z ?jx"
  proof (cases "?jx = 0")
    case True
    then show ?thesis by simp
  next
    case False
    with jx0 jx1 Z(2) have "nat 0 < nat ?jx" "nat ?jx < length Z" by linarith+
    from sorted_wrt_nth_less[OF Z(3) this] show ?thesis by simp
  qed
  have k0eq: "?K 0 = 0.95 * kstar alpha beta delta (rd Z 0)" using kp by blast
  from kGrid_first_covers_depreciation[OF a be d(1) z0]
  have k0: "0 < ?K 0" "delta * ?K 0 \<le> rd Z 0 * pow (?K 0) alpha" unfolding k0eq by simp_all
  have kix: "?K 0 \<le> ?K ?ix"
  proof (cases "?ix = 0")
    case True
    then show ?thesis by simp
  next
    case False
    with ix have "0 < ?ix" by simp
    with kp have "?K 0 < ?K ?ix" by blast
    then show ?thesis by simp
  qed
  from k0(1) kix have kixpos: "0 < ?K ?ix" by linarith
  have "pow (?K 0) alpha \<le> pow (?K ?ix) alpha"
    unfolding pow_pos[OF k0(1)] pow_pos[OF kixpos] using a(1) k0(1) kix
    by (intro powr_mono2) simp_all
  moreover have "0 \<le> pow (?K 0) alpha" by (simp add: pow_pos[OF k0(1)])
  ultimately have "rd Z 0 * pow (?K 0) alpha \<le> rd Z ?jx * pow (?K ?ix) alpha"
    using zj z0 by (intro mult_mono) simp_all
  with k0(2) have one: "delta * ?K 0 \<le> rd Z ?jx * pow (?K ?ix) alpha" by linarith
  have two: "(1 - delta) * ?K 0 \<le> (1 - delta) * ?K ?ix"
    using d(2) kix by (intro mult_left_mono) simp_all
  have "?K 0 = delta * ?K 0 + (1 - delta) * ?K 0" by (simp add: algebra_simps)
  also have "\<dots> \<le> rd Z ?jx * pow (?K ?ix) alpha + (1 - delta) * ?K ?ix"
    using one two by linarith
  also have "\<dots> = vfStep_ydepK c hx"
    by (simp add: vfStep_ydepK_def jx vfStep_ix_def c Kix[unfolded c(1)])
  finally show ?thesis unfolding K0 .
qed

lemma sorted_wrt_map_upto:
  fixes f :: "int \<Rightarrow> real"
  assumes "\<And>i j. i < j \<Longrightarrow> f i < f j"
  shows "sorted_wrt (<) (map f [m..n])"
  unfolding sorted_wrt_map
  by (rule sorted_wrt_mono_rel[of _ "(<)"]) (simp_all add: assms)

text \<open>Claim C7. Let \<open>K\<close> be the grid \<^verbatim>\<open>kGrid\<close> builds, of \<open>2 \<le> nk \<le> 2\<^sup>3\<^sup>0\<close> points, for
  \<open>alpha\<close>, \<open>beta\<close> in \<open>(0,1)\<close>, \<open>0 \<le> delta \<le> 1\<close> and a strictly increasing positive
  productivity grid \<open>Z\<close>, and let \<open>hx\<close> be the flat index of the state \<open>(k, j)\<close>,
  \<open>k = hx mod nk\<close>, \<open>j = hx div nk\<close>, with resources
  \<open>ydepK = Z[j]\<cdot>K[k]\<^bsup>alpha\<^esup> + (1 - delta)\<cdot>K[k]\<close>. Then \<^verbatim>\<open>vfStep\<close> computes these resources,
  and its bracket end \<open>khi\<close> (the locator result, decremented when \<open>K[khi] > ydepK\<close>)
  satisfies \<open>0 \<le> khi \<le> nk - 1\<close>; every \<open>k'\<close> in \<open>[0, khi]\<close> has \<open>K[k'] \<le> ydepK\<close>, so
  consumption \<open>ydepK - K[k']\<close> is non-negative, and every grid index above \<open>khi\<close> has
  \<open>K[k'] > ydepK\<close>.\<close>

theorem khi_feasible:
  assumes "2 \<le> nk" "nk \<le> 2 ^ 30" "0 < alpha" "alpha < 1" "0 < beta" "beta < 1"
    "0 \<le> delta" "delta \<le> 1"
    and "1 \<le> nz" "length Z = nat nz" "sorted_wrt (<) Z" "\<forall>z\<in>set Z. 0 < z"
    and "vf_K c = map (kGrid nk nz beta alpha delta Z) [0..nk - 1]" "vf_Z c = Z"
      "vf_nk c = nk" "vf_alpha c = alpha" "vf_delta c = delta"
    and "0 \<le> hx" "hx < nk * nz"
    and "k = hx mod nk" "j = hx div nk"
    and "ydepK = rd Z j * rd (vf_K c) k powr alpha + (1 - delta) * rd (vf_K c) k"
  shows "vfStep_ydepK c hx = ydepK \<and>
         (\<exists>khi. vfStep_khi ydepK nk (vf_K c) = Some khi \<and> 0 \<le> khi \<and> khi \<le> nk - 1 \<and>
            (\<forall>k'\<in>{0..khi}. rd (vf_K c) k' \<le> ydepK \<and> 0 \<le> ydepK - rd (vf_K c) k') \<and>
            (\<forall>k'\<in>{khi + 1..nk - 1}. ydepK < rd (vf_K c) k'))"
proof -
  let ?K = "kGrid nk nz beta alpha delta Z"
  have "1 < 1 / beta" using assms(5,6) by simp
  with assms(7) have cpos: "0 < 1 / beta - 1 + delta" by linarith
  note kp = kGrid_props[OF assms(1,3,4,5,6) cpos assms(9-12)]
  from assms(1) have nk: "0 < vf_nk c" "1 \<le> nk" by (simp_all add: assms(15))
  note st = vfStep_state[OF nk(1), of hx, unfolded assms(15), folded assms(20,21)]
  from assms(1,18) have k: "0 \<le> k" "k \<le> nk - 1" by (simp_all add: assms(20))
  have Kk: "rd (vf_K c) k = ?K k" unfolding assms(13) using k by (intro rd_map_upto)
  from kp k(1) have "0 < ?K k" by blast
  then have kpos: "0 < rd (vf_K c) k" by (simp only: Kk)
  have y: "vfStep_ydepK c hx = ydepK"
    by (simp add: vfStep_ydepK_def st pow_pos[OF kpos] assms(14,16,17,22))
  from kGrid_states_feasible[OF assms(1,3-19)] have first: "rd (vf_K c) 0 \<le> ydepK"
    by (simp only: y)
  have len: "length (vf_K c) = nat nk" using assms(1) by (simp add: assms(13))
  have srt: "sorted_wrt (<) (vf_K c)"
    unfolding assms(13) using kp by (intro sorted_wrt_map_upto) blast
  from vfStep_khi_greatest[OF srt len nk(2) assms(2) first]
  obtain khi where khi: "vfStep_khi ydepK nk (vf_K c) = Some khi" "0 \<le> khi" "khi \<le> nk - 1"
    "\<forall>k'. 0 \<le> k' \<and> k' \<le> khi \<longrightarrow> rd (vf_K c) k' \<le> ydepK"
    "\<forall>k'. khi < k' \<and> k' \<le> nk - 1 \<longrightarrow> ydepK < rd (vf_K c) k'" by blast
  from khi(4) have "\<forall>k'\<in>{0..khi}. rd (vf_K c) k' \<le> ydepK \<and> 0 \<le> ydepK - rd (vf_K c) k'"
    by simp
  moreover from khi(5) have "\<forall>k'\<in>{khi + 1..nk - 1}. ydepK < rd (vf_K c) k'" by simp
  ultimately show ?thesis using y khi(1-3) by blast
qed

theorem khi_feasible_witness:
  "vfStep_ydepK cfg_grid 4
     = 2 * rd (vf_K cfg_grid) 1 powr (1 / 2) + (1 - 1) * rd (vf_K cfg_grid) 1 \<and>
   (\<exists>khi. vfStep_khi (2 * rd (vf_K cfg_grid) 1 powr (1 / 2) + (1 - 1) * rd (vf_K cfg_grid) 1)
             3 (vf_K cfg_grid) = Some khi \<and> 0 \<le> khi \<and> khi \<le> 3 - 1 \<and>
      (\<forall>k'\<in>{0..khi}. rd (vf_K cfg_grid) k'
             \<le> 2 * rd (vf_K cfg_grid) 1 powr (1 / 2) + (1 - 1) * rd (vf_K cfg_grid) 1 \<and>
           0 \<le> 2 * rd (vf_K cfg_grid) 1 powr (1 / 2) + (1 - 1) * rd (vf_K cfg_grid) 1
                 - rd (vf_K cfg_grid) k') \<and>
      (\<forall>k'\<in>{khi + 1..3 - 1}.
           2 * rd (vf_K cfg_grid) 1 powr (1 / 2) + (1 - 1) * rd (vf_K cfg_grid) 1
             < rd (vf_K cfg_grid) k'))"
  by (rule khi_feasible[where c = cfg_grid and hx = 4 and nk = 3 and nz = 2
        and alpha = "1 / 2" and beta = "1 / 2" and delta = 1 and Z = "[1, 2]"
        and k = 1 and j = 1])
     (simp_all add: cfg_grid_def)

section \<open>Bisection against grid search\<close>

text \<open>The utility \<open>u(c) = c\<^bsup>p\<^esup>/p\<close> with \<open>p = 1 - eta \<le> 1\<close>, \<open>p \<noteq> 0\<close>, lies below each of
  its tangents, so it is concave: first Bernoulli's inequality for real exponents, then
  the tangent at \<open>m > 0\<close>, then the midpoint inequality.\<close>

lemma powr_bernoulli:
  fixes t p :: real
  assumes "0 < t" "p \<le> 1" "p \<noteq> 0"
  shows "(t powr p - 1) / p \<le> t - 1"
proof (cases "p < 0")
  case True
  have "1 + p * ln t \<le> exp (p * ln t)" by (rule exp_ge_add_one_self)
  moreover have "t powr p = exp (p * ln t)" using assms(1) by (simp add: powr_def)
  ultimately have "p * ln t \<le> t powr p - 1" by linarith
  then have "ln t * p \<le> t powr p - 1" by (simp add: mult.commute)
  then have "(t powr p - 1) / p \<le> ln t" using True by (simp only: neg_divide_le_eq)
  also have "ln t \<le> t - 1" by (rule ln_le_minus_one[OF assms(1)])
  finally show ?thesis .
next
  case False
  with assms have p: "0 < p" "p \<le> 1" by simp_all
  define s where "s = p * t + (1 - p)"
  have "0 < p * t" using p(1) assms(1) by simp
  then have s: "0 < s" using p(2) by (simp add: s_def add_pos_nonneg)
  have ts: "0 < t / s" "0 < 1 / s" using s assms(1) by simp_all
  have "p * ln (t / s) \<le> p * (t / s - 1)"
    using p(1) ln_le_minus_one[OF ts(1)] by (intro mult_left_mono) simp_all
  moreover have "(1 - p) * ln (1 / s) \<le> (1 - p) * (1 / s - 1)"
    using p(2) ln_le_minus_one[OF ts(2)] by (intro mult_left_mono) simp_all
  ultimately have "p * ln (t / s) + (1 - p) * ln (1 / s)
      \<le> p * (t / s - 1) + (1 - p) * (1 / s - 1)" by (rule add_mono)
  also have "p * (t / s - 1) + (1 - p) * (1 / s - 1) = (p * t + (1 - p)) / s - 1"
    by (simp add: algebra_simps add_divide_distrib diff_divide_distrib)
  also have "\<dots> = 0" using s by (simp add: s_def[symmetric])
  finally have "p * ln (t / s) + (1 - p) * ln (1 / s) \<le> 0" .
  moreover have "ln (t / s) = ln t - ln s" using assms(1) s by (simp add: ln_div)
  moreover have "ln (1 / s) = - ln s" using s by (simp add: ln_div)
  ultimately have "p * (ln t - ln s) + (1 - p) * (- ln s) \<le> 0" by simp
  then have "p * ln t \<le> ln s" by (simp add: algebra_simps)
  then have "exp (p * ln t) \<le> exp (ln s)" by simp
  then have "t powr p \<le> s" using assms(1) s by (simp add: powr_def)
  then have "t powr p - 1 \<le> p * (t - 1)" by (simp add: s_def algebra_simps)
  then have "(t powr p - 1) / p \<le> p * (t - 1) / p"
    using p(1) by (intro divide_right_mono) simp_all
  then show ?thesis using p(1) by simp
qed

lemma crra_tangent:
  fixes x m p :: real
  assumes "p \<le> 1" "p \<noteq> 0" "0 < m" "0 \<le> x" "0 < p \<or> 0 < x"
  shows "x powr p / p \<le> m powr p / p + m powr (p - 1) * (x - m)"
proof -
  have mp: "m powr (p - 1) * m = m powr p"
    using assms(3) by (simp add: powr_diff)
  show ?thesis
  proof (cases "x = 0")
    case True
    with assms(5) have p: "0 < p" by simp
    with assms(1) have "m powr p * 1 \<le> m powr p * (1 / p)"
      by (intro mult_left_mono) simp_all
    then have "m powr p \<le> m powr p / p" by simp
    with True mp show ?thesis by simp
  next
    case False
    with assms(4) have x: "0 < x" by simp
    define t where "t = x / m"
    have t: "0 < t" using x assms(3) by (simp add: t_def)
    have xt: "x = m * t" using assms(3) by (simp add: t_def)
    from powr_bernoulli[OF t assms(1,2)] have "(t powr p - 1) / p \<le> t - 1" .
    then have "m powr p * ((t powr p - 1) / p) \<le> m powr p * (t - 1)"
      by (intro mult_left_mono) simp_all
    moreover have "m powr p * ((t powr p - 1) / p) = x powr p / p - m powr p / p"
      using assms(3) t by (simp add: xt powr_mult algebra_simps diff_divide_distrib)
    moreover have "m powr p * (t - 1) = m powr (p - 1) * (x - m)"
    proof -
      have "m powr (p - 1) * (x - m) = m powr (p - 1) * m * (t - 1)"
        by (simp add: xt algebra_simps)
      then show ?thesis by (simp only: mp)
    qed
    ultimately show ?thesis by simp
  qed
qed

lemma crra_midpoint:
  fixes a b c p :: real
  assumes "p \<le> 1" "p \<noteq> 0" "0 < b" "0 \<le> a" "0 \<le> c" "0 < p \<or> (0 < a \<and> 0 < c)"
    "a + c = 2 * b"
  shows "a powr p / p + c powr p / p \<le> 2 * (b powr p / p)"
proof -
  from assms(6) have "0 < p \<or> 0 < a" "0 < p \<or> 0 < c" by auto
  from crra_tangent[OF assms(1,2,3,4) this(1)] crra_tangent[OF assms(1,2,3,5) this(2)]
  have "a powr p / p + c powr p / p
      \<le> 2 * (b powr p / p) + b powr (p - 1) * (a + c - 2 * b)"
    by (simp add: algebra_simps)
  then show ?thesis by (simp add: assms(7))
qed

lemma strictly_concave_seq_imp: "strictly_concave_seq w n \<Longrightarrow> concave_seq w n"
  by (auto simp: strictly_concave_seq_def concave_seq_def intro: less_imp_le)

lemma concave_seq_step:
  assumes "concave_seq w n" "1 \<le> l" "l \<le> n - 2"
  shows "w (l + 1) - w l \<le> w l - w (l - 1)"
  using assms by (simp add: concave_seq_def)

text \<open>In a concave sequence, a rise from \<open>m\<close> to \<open>m + 1\<close> means that nothing to the left
  of \<open>m\<close> exceeds \<open>w m\<close>; and no rise there means that nothing to the right of \<open>m + 1\<close>
  exceeds \<open>w (m + 1)\<close>.\<close>

lemma concave_rising:
  assumes c: "concave_seq w n" and m: "0 \<le> m" "m + 1 \<le> n - 1" and up: "w m < w (m + 1)"
    and l: "0 \<le> l" "l \<le> m"
  shows "w l < w (l + 1) \<and> w l \<le> w m"
  using l(2,1)
proof (induction l rule: int_le_induct)
  case base
  show ?case using up by simp
next
  case (step l)
  then have IH: "w l < w (l + 1)" "w l \<le> w m" by simp_all
  from step m have "1 \<le> l" "l \<le> n - 2" by simp_all
  from concave_seq_step[OF c this] have "w (l + 1) - w l \<le> w l - w (l - 1)" .
  with IH show ?case by simp
qed

lemma concave_left_of_rise:
  assumes "concave_seq w n" "0 \<le> m" "m + 1 \<le> n - 1" "w m < w (m + 1)" "0 \<le> l" "l \<le> m"
  shows "w l \<le> w m"
  using concave_rising[OF assms] by simp

lemma concave_falling:
  assumes c: "concave_seq w n" and m: "0 \<le> m" "m + 1 \<le> n - 1" and dn: "w (m + 1) \<le> w m"
    and l: "m + 1 \<le> l" "l \<le> n - 1"
  shows "w l \<le> w (l - 1) \<and> w l \<le> w (m + 1)"
  using l
proof (induction l rule: int_ge_induct)
  case base
  show ?case using dn by simp
next
  case (step l)
  then have IH: "w l \<le> w (l - 1)" "w l \<le> w (m + 1)" by simp_all
  from step m have "1 \<le> l" "l \<le> n - 2" by simp_all
  from concave_seq_step[OF c this] have "w (l + 1) - w l \<le> w l - w (l - 1)" .
  with IH show ?case by simp
qed

lemma concave_right_of_fall:
  assumes "concave_seq w n" "0 \<le> m" "m + 1 \<le> n - 1" "w (m + 1) \<le> w m" "m + 1 \<le> l" "l \<le> n - 1"
  shows "w l \<le> w (m + 1)"
  using concave_falling[OF assms] by simp


text \<open>So each step of the loop of \<^verbatim>\<open>binary_max\<close> keeps a bracket that still holds a
  largest value of the objective.\<close>

lemma binary_max_loop_keeps_max:
  fixes w :: "int \<Rightarrow> real"
  assumes "concave_seq w n" "0 \<le> kslo" "kshi \<le> n - 1" "kshi - kslo > 2"
    "\<forall>l. 0 \<le> l \<and> l \<le> n - 1 \<longrightarrow> (\<exists>l'. kslo \<le> l' \<and> l' \<le> kshi \<and> w l \<le> w l')"
    "binary_max_loop w kslo kshi w1 w2 = Some (a, b, u, v)"
  shows "\<forall>l. 0 \<le> l \<and> l \<le> n - 1 \<longrightarrow> (\<exists>l'. a \<le> l' \<and> l' \<le> b \<and> w l \<le> w l')"
  using assms(2-6)
proof (induction "nat (kshi - kslo)" arbitrary: kslo kshi w1 w2 rule: less_induct)
  case less
  let ?m = "(kslo + kshi) div 2"
  from less.prems have lt1: "nat (kshi - ?m) < nat (kshi - kslo)"
    and lt2: "nat (?m + 1 - kslo) < nat (kshi - kslo)"
    and b: "kslo < ?m" "?m + 1 < kshi" "0 \<le> ?m" "?m + 1 \<le> n - 1" by linarith+
  note dom = less.prems(4)
  note step = binary_max_loop_step0[OF less.prems(3)
      binary_max_loop_no_overflow[OF less.prems(5,3)], of w w1 w2]
  show ?case
  proof (cases "w (?m + 1) > w ?m")
    case True
    have dom': "\<forall>l. 0 \<le> l \<and> l \<le> n - 1 \<longrightarrow> (\<exists>l'. ?m \<le> l' \<and> l' \<le> kshi \<and> w l \<le> w l')"
    proof (intro allI impI)
      fix l assume l: "0 \<le> l \<and> l \<le> n - 1"
      with dom obtain l' where l': "kslo \<le> l'" "l' \<le> kshi" "w l \<le> w l'" by blast
      show "\<exists>l'. ?m \<le> l' \<and> l' \<le> kshi \<and> w l \<le> w l'"
      proof (cases "?m \<le> l'")
        case True
        with l' show ?thesis by blast
      next
        case False
        with l'(1) less.prems(1) have "0 \<le> l'" "l' \<le> ?m" by simp_all
        from concave_left_of_rise[OF assms(1) b(3,4) True this] l'(3)
        have "w l \<le> w ?m" by simp
        with b show ?thesis by (intro exI[of _ ?m]) simp
      qed
    qed
    have unf: "binary_max_loop w kslo kshi w1 w2 = binary_max_loop w ?m kshi (w ?m) (w (?m + 1))"
      using True by (simp add: step Let_def)
    show ?thesis
    proof (cases "kshi - ?m > 2")
      case big: True
      from less.hyps[OF lt1 b(3) less.prems(2) big dom'] less.prems(5) unf
      show ?thesis by simp
    next
      case False
      then have "binary_max_loop w ?m kshi (w ?m) (w (?m + 1)) = Some (?m, kshi, w ?m, w (?m + 1))"
        by (rule binary_max_loop_stop)
      with unf less.prems(5) have "a = ?m" "b = kshi" by simp_all
      with dom' show ?thesis by simp
    qed
  next
    case False
    then have dn: "w (?m + 1) \<le> w ?m" by simp
    have dom': "\<forall>l. 0 \<le> l \<and> l \<le> n - 1 \<longrightarrow> (\<exists>l'. kslo \<le> l' \<and> l' \<le> ?m + 1 \<and> w l \<le> w l')"
    proof (intro allI impI)
      fix l assume l: "0 \<le> l \<and> l \<le> n - 1"
      with dom obtain l' where l': "kslo \<le> l'" "l' \<le> kshi" "w l \<le> w l'" by blast
      show "\<exists>l'. kslo \<le> l' \<and> l' \<le> ?m + 1 \<and> w l \<le> w l'"
      proof (cases "l' \<le> ?m + 1")
        case True
        with l' show ?thesis by blast
      next
        case False
        with l'(2) less.prems(2) have "?m + 1 \<le> l'" "l' \<le> n - 1" by simp_all
        from concave_right_of_fall[OF assms(1) b(3,4) dn this] l'(3)
        have "w l \<le> w (?m + 1)" by simp
        with b show ?thesis by (intro exI[of _ "?m + 1"]) simp
      qed
    qed
    have unf: "binary_max_loop w kslo kshi w1 w2
        = binary_max_loop w kslo (?m + 1) (w ?m) (w (?m + 1))"
      using False by (simp add: step Let_def)
    show ?thesis
    proof (cases "?m + 1 - kslo > 2")
      case big: True
      from less.hyps[OF lt2 less.prems(1) b(4) big dom'] less.prems(5) unf
      show ?thesis by simp
    next
      case small: False
      then have "binary_max_loop w kslo (?m + 1) (w ?m) (w (?m + 1))
          = Some (kslo, ?m + 1, w ?m, w (?m + 1))"
        by (rule binary_max_loop_stop)
      with unf less.prems(5) have "a = kslo" "b = ?m + 1" by simp_all
      with dom' show ?thesis by simp
    qed
  qed
qed


text \<open>On a concave objective \<^verbatim>\<open>binary_max\<close> stores a largest value of the bracket and
  an offset where it is attained.\<close>

lemma binary_max_concave:
  fixes K :: "real list" and P V0 :: "real list \<times> int" and klo nksub nk nz :: int
    and ydepK eta beta :: real
  defines "w \<equiv> bellman_w klo nk nz ydepK eta beta K P V0"
  assumes n: "1 \<le> nksub" and bnd: "nksub \<le> 2 ^ 30" and c: "concave_seq w nksub"
  shows "\<exists>i. binary_max klo nksub nk nz ydepK eta beta K P V0 = Some (w i, real_of_int (klo + i)) \<and>
           0 \<le> i \<and> i \<le> nksub - 1 \<and> (\<forall>l. 0 \<le> l \<and> l \<le> nksub - 1 \<longrightarrow> w l \<le> w i)"
proof -
  have "nksub > 3 \<or> nksub = 3 \<or> nksub = 2 \<or> nksub = 1" using n by linarith
  then consider (big) "nksub > 3" | (three) "nksub = 3" | (two) "nksub = 2" | (one) "nksub = 1"
    by blast
  then show ?thesis
  proof cases
    case big
    then have g: "nksub - 1 - 0 > 2" by simp
    from bnd have "nksub - 1 < 2 ^ 30" by simp
    from binary_max_loop_returns[OF this, of w 0 0 0]
    obtain a b u v where r: "binary_max_loop w 0 (nksub - 1) 0 0 = Some (a, b, u, v)"
      by (metis prod_cases4)
    from binary_max_loop_post[OF g r]
    have ab: "0 \<le> a" "b \<le> nksub - 1" "b = a + 2"
      and uv: "if v > u then u = w a \<and> v = w (a + 1) else u = w (a + 1) \<and> v = w b"
      by auto
    have dom0: "\<forall>l. 0 \<le> l \<and> l \<le> nksub - 1 \<longrightarrow> (\<exists>l'. 0 \<le> l' \<and> l' \<le> nksub - 1 \<and> w l \<le> w l')"
      by auto
    from binary_max_loop_keeps_max[OF c _ _ g dom0 r]
    have dom: "\<forall>l. 0 \<le> l \<and> l \<le> nksub - 1 \<longrightarrow> (\<exists>l'. a \<le> l' \<and> l' \<le> b \<and> w l \<le> w l')"
      by simp
    have three: "w l \<le> w a \<or> w l \<le> w (a + 1) \<or> w l \<le> w b" if "0 \<le> l" "l \<le> nksub - 1" for l
    proof -
      from dom that obtain l' where l': "a \<le> l'" "l' \<le> b" "w l \<le> w l'" by blast
      with ab(3) have "l' = a \<or> l' = a + 1 \<or> l' = b" by linarith
      with l'(3) show ?thesis by auto
    qed
    have bm: "binary_max klo nksub nk nz ydepK eta beta K P V0 =
        (if v > u then (if v > w b then Some (v, real_of_int (klo + a + 1))
                        else Some (w b, real_of_int (klo + b)))
         else (if w a > u then Some (w a, real_of_int (klo + a))
               else Some (u, real_of_int (klo + a + 1))))"
      using big r by (simp add: binary_max_def Let_def w_def)
    show ?thesis
    proof (cases "v > u")
      case True
      with uv have e: "u = w a" "v = w (a + 1)" by simp_all
      show ?thesis
      proof (cases "v > w b")
        case vb: True
        have "\<forall>l. 0 \<le> l \<and> l \<le> nksub - 1 \<longrightarrow> w l \<le> w (a + 1)"
          using three True vb e by force
        with bm True vb e ab show ?thesis
          by (intro exI[of _ "a + 1"]) (simp add: add.assoc)
      next
        case vb: False
        have "\<forall>l. 0 \<le> l \<and> l \<le> nksub - 1 \<longrightarrow> w l \<le> w b"
          using three True vb e by force
        with bm True vb e ab show ?thesis
          by (intro exI[of _ b]) simp
      qed
    next
      case False
      with uv have e: "u = w (a + 1)" "v = w b" by simp_all
      show ?thesis
      proof (cases "w a > u")
        case au: True
        have "\<forall>l. 0 \<le> l \<and> l \<le> nksub - 1 \<longrightarrow> w l \<le> w a"
          using three False au e by force
        with bm False au e ab show ?thesis
          by (intro exI[of _ a]) simp
      next
        case au: False
        have "\<forall>l. 0 \<le> l \<and> l \<le> nksub - 1 \<longrightarrow> w l \<le> w (a + 1)"
          using three False au e by force
        with bm False au e ab show ?thesis
          by (intro exI[of _ "a + 1"]) (simp add: add.assoc)
      qed
    qed
  next
    case three
    have cases3: "l = 0 \<or> l = 1 \<or> l = 2" if "0 \<le> l" "l \<le> nksub - 1" for l
      using that three by linarith
    have bm: "binary_max klo nksub nk nz ydepK eta beta K P V0 =
        (if w 1 > w 0 then (if w 2 > w 1 then Some (w 2, real_of_int (klo + 2))
                            else Some (w 1, real_of_int (klo + 1)))
         else (if w 2 > w 0 then Some (w 2, real_of_int (klo + 2))
               else Some (w 0, real_of_int klo)))"
      using three by (simp add: binary_max_def Let_def w_def)
    show ?thesis
    proof (cases "w 1 > w 0")
      case True
      show ?thesis
      proof (cases "w 2 > w 1")
        case t: True
        have "\<forall>l. 0 \<le> l \<and> l \<le> nksub - 1 \<longrightarrow> w l \<le> w 2"
          using cases3 True t by force
        with bm True t three show ?thesis by (intro exI[of _ 2]) simp
      next
        case t: False
        have "\<forall>l. 0 \<le> l \<and> l \<le> nksub - 1 \<longrightarrow> w l \<le> w 1"
          using cases3 True t by force
        with bm True t three show ?thesis by (intro exI[of _ 1]) simp
      qed
    next
      case False
      show ?thesis
      proof (cases "w 2 > w 0")
        case t: True
        have "\<forall>l. 0 \<le> l \<and> l \<le> nksub - 1 \<longrightarrow> w l \<le> w 2"
          using cases3 False t by force
        with bm False t three show ?thesis by (intro exI[of _ 2]) simp
      next
        case t: False
        have "\<forall>l. 0 \<le> l \<and> l \<le> nksub - 1 \<longrightarrow> w l \<le> w 0"
          using cases3 False t by force
        with bm False t three show ?thesis by (intro exI[of _ 0]) simp
      qed
    qed
  next
    case two
    have cases2: "l = 0 \<or> l = 1" if "0 \<le> l" "l \<le> nksub - 1" for l
      using that two by linarith
    have bm: "binary_max klo nksub nk nz ydepK eta beta K P V0 =
        (if w 1 > w 0 then Some (w 1, real_of_int (klo + 1)) else Some (w 0, real_of_int klo))"
      using two by (simp add: binary_max_def Let_def w_def)
    show ?thesis
    proof (cases "w 1 > w 0")
      case True
      have "\<forall>l. 0 \<le> l \<and> l \<le> nksub - 1 \<longrightarrow> w l \<le> w 1" using cases2 True by force
      with bm True two show ?thesis by (intro exI[of _ 1]) simp
    next
      case False
      have "\<forall>l. 0 \<le> l \<and> l \<le> nksub - 1 \<longrightarrow> w l \<le> w 0" using cases2 False by force
      with bm False two show ?thesis by (intro exI[of _ 0]) simp
    qed
  next
    case one
    have "\<forall>l. 0 \<le> l \<and> l \<le> nksub - 1 \<longrightarrow> w l \<le> w 0" using one by auto
    moreover have "binary_max klo nksub nk nz ydepK eta beta K P V0 = Some (w 0, real_of_int klo)"
      using one by (simp add: binary_max_def Let_def w_def)
    ultimately show ?thesis using one by (intro exI[of _ 0]) simp
  qed
qed


text \<open>On a concave objective the two maximisers store the same value, the maximum over
  the bracket, and each stores an offset where the objective has that value; the offsets
  are the same when the maximum is attained once.\<close>

lemma agreement_on_concave:
  fixes K :: "real list" and P V0 :: "real list \<times> int" and klo nksub nk nz :: int
    and ydepK eta beta :: real
  defines "w \<equiv> bellman_w klo nk nz ydepK eta beta K P V0"
  assumes "1 \<le> nksub" "nksub \<le> 2 ^ 30" "concave_seq w nksub"
  shows "\<exists>ig ib. grid_max klo nksub nk nz ydepK eta beta K P V0 = (w ig, real_of_int (klo + ig)) \<and>
            binary_max klo nksub nk nz ydepK eta beta K P V0 = Some (w ib, real_of_int (klo + ib)) \<and>
            ig \<in> {0..nksub - 1} \<and> ib \<in> {0..nksub - 1} \<and> w ib = w ig \<and>
            w ig = Max (w ` {0..nksub - 1}) \<and>
            ((\<forall>l\<in>{0..nksub - 1}. w l = w ig \<longrightarrow> l = ig) \<longrightarrow> ib = ig)"
proof -
  from grid_max_spec[OF assms(2), of klo nk nz ydepK eta beta K P V0]
  obtain ig where g: "grid_max klo nksub nk nz ydepK eta beta K P V0 = (w ig, real_of_int (klo + ig))"
    "0 \<le> ig" "ig \<le> nksub - 1" "\<forall>l. 0 \<le> l \<and> l \<le> nksub - 1 \<longrightarrow> w l \<le> w ig"
    unfolding w_def by blast
  from binary_max_concave[OF assms(2,3), of klo nk nz ydepK eta beta K P V0] assms(4)
  obtain ib where b: "binary_max klo nksub nk nz ydepK eta beta K P V0 = Some (w ib, real_of_int (klo + ib))"
    "0 \<le> ib" "ib \<le> nksub - 1" "\<forall>l. 0 \<le> l \<and> l \<le> nksub - 1 \<longrightarrow> w l \<le> w ib"
    unfolding w_def by blast
  from g(2-4) b(2-4) have eq: "w ib = w ig" by (intro antisym) auto
  have mx: "Max (w ` {0..nksub - 1}) = w ig"
    using g(2-4) by (intro Max_eqI) auto
  have "ib = ig" if "\<forall>l\<in>{0..nksub - 1}. w l = w ig \<longrightarrow> l = ig"
    using that eq b(2,3) by auto
  with g b eq mx show ?thesis by (intro exI[of _ ig] exI[of _ ib]) simp
qed

text \<open>The objective is concave over the bracket when \<open>V0\<close> is concave in capital for each
  productivity column, the transition weights and \<open>beta\<close> are non-negative, and the
  utility term is concave along the bracket.\<close>

lemma objective_concave:
  fixes K Pa Va :: "real list" and klo nksub nk nz po vo :: int and ydepK eta beta :: real
  assumes v: "\<forall>m\<in>{0..nz - 1}. concave_seq (\<lambda>l. ptr_rd (Va, vo) (l + m * nk)) nksub"
    and p: "\<forall>m\<in>{0..nz - 1}. 0 \<le> ptr_rd (Pa, po) (m * nz)"
    and b: "0 \<le> beta"
    and u: "concave_seq (\<lambda>l. pow (ydepK - rd K (klo + l)) (1 - eta) / (1 - eta)) nksub"
  shows "concave_seq (bellman_w klo nk nz ydepK eta beta K (Pa, po) (Va, vo)) nksub"
  unfolding concave_seq_def
proof
  fix l assume l: "l \<in> {1..nksub - 2}"
  let ?E = "\<lambda>l. \<Sum>m = 0..nz - 1. rd Pa (po + m * nz) * rd Va (vo + (l + m * nk))"
  let ?u = "\<lambda>l. pow (ydepK - rd K (klo + l)) (1 - eta) / (1 - eta)"
  have w: "bellman_w klo nk nz ydepK eta beta K (Pa, po) (Va, vo) l = ?u l + beta * ?E l" for l
    by (simp add: bellman_w_def Exp_loop_sum)
  have "?E (l + 1) - ?E l = (\<Sum>m = 0..nz - 1. rd Pa (po + m * nz)
            * (rd Va (vo + (l + 1 + m * nk)) - rd Va (vo + (l + m * nk))))"
    by (simp add: sum_subtractf algebra_simps)
  also have "\<dots> \<le> (\<Sum>m = 0..nz - 1. rd Pa (po + m * nz)
            * (rd Va (vo + (l + m * nk)) - rd Va (vo + (l - 1 + m * nk))))"
  proof (rule sum_mono)
    fix m assume m: "m \<in> {0..nz - 1}"
    from v m l have "rd Va (vo + (l + 1 + m * nk)) - rd Va (vo + (l + m * nk))
        \<le> rd Va (vo + (l + m * nk)) - rd Va (vo + (l - 1 + m * nk))"
      by (simp add: concave_seq_def)
    moreover from p m have "0 \<le> rd Pa (po + m * nz)" by simp
    ultimately show "rd Pa (po + m * nz) * (rd Va (vo + (l + 1 + m * nk)) - rd Va (vo + (l + m * nk)))
        \<le> rd Pa (po + m * nz) * (rd Va (vo + (l + m * nk)) - rd Va (vo + (l - 1 + m * nk)))"
      by (rule mult_left_mono)
  qed
  also have "\<dots> = ?E l - ?E (l - 1)"
    by (simp add: sum_subtractf algebra_simps)
  finally have E: "?E (l + 1) - ?E l \<le> ?E l - ?E (l - 1)" .
  from E b have "beta * (?E (l + 1) - ?E l) \<le> beta * (?E l - ?E (l - 1))"
    by (rule mult_left_mono)
  moreover from u l have "?u (l + 1) - ?u l \<le> ?u l - ?u (l - 1)"
    by (simp add: concave_seq_def)
  ultimately show "bellman_w klo nk nz ydepK eta beta K (Pa, po) (Va, vo) (l + 1)
        - bellman_w klo nk nz ydepK eta beta K (Pa, po) (Va, vo) l
      \<le> bellman_w klo nk nz ydepK eta beta K (Pa, po) (Va, vo) l
        - bellman_w klo nk nz ydepK eta beta K (Pa, po) (Va, vo) (l - 1)"
    unfolding w by (simp add: algebra_simps)
qed

text \<open>Along a bracket of equally spaced capital points within the resources the utility
  term is concave in the candidate index.\<close>

lemma utility_concave:
  fixes K :: "real list" and klo nksub :: int and ydepK eta k0 step :: real
  assumes e: "0 \<le> eta" "eta \<noteq> 1"
    and s: "0 < step" "\<forall>l\<in>{0..nksub - 1}. rd K (klo + l) = k0 + real_of_int l * step"
    and f: "\<forall>l\<in>{0..nksub - 1}. rd K (klo + l) \<le> ydepK"
    and z: "eta < 1 \<or> (\<forall>l\<in>{0..nksub - 1}. rd K (klo + l) < ydepK)"
  shows "concave_seq (\<lambda>l. pow (ydepK - rd K (klo + l)) (1 - eta) / (1 - eta)) nksub"
  unfolding concave_seq_def
proof
  fix l assume "l \<in> {1..nksub - 2}"
  then have l: "l - 1 \<in> {0..nksub - 1}" "l \<in> {0..nksub - 1}" "l + 1 \<in> {0..nksub - 1}"
    by simp_all
  define p where "p = 1 - eta"
  define a where "a = ydepK - rd K (klo + (l - 1))"
  define b where "b = ydepK - rd K (klo + l)"
  define c where "c = ydepK - rd K (klo + (l + 1))"
  have p: "p \<le> 1" "p \<noteq> 0" using e by (simp_all add: p_def)
  have Ka: "rd K (klo + (l - 1)) = k0 + real_of_int (l - 1) * step"
    and Kb: "rd K (klo + l) = k0 + real_of_int l * step"
    and Kc: "rd K (klo + (l + 1)) = k0 + real_of_int (l + 1) * step"
    using s(2) l by blast+
  have sum: "a + c = 2 * b" unfolding a_def b_def c_def Ka Kb Kc by (simp add: algebra_simps)
  have bc: "b = c + step" unfolding b_def c_def Kb Kc by (simp add: algebra_simps)
  from f l have "rd K (klo + (l - 1)) \<le> ydepK" "rd K (klo + (l + 1)) \<le> ydepK" by blast+
  then have nn: "0 \<le> a" "0 \<le> c" unfolding a_def c_def by linarith+
  with bc s(1) have b: "0 < b" by simp
  have pos: "0 < p \<or> (0 < a \<and> 0 < c)"
  proof (cases "eta < 1")
    case True
    then show ?thesis by (simp add: p_def)
  next
    case False
    with z have "\<forall>l\<in>{0..nksub - 1}. rd K (klo + l) < ydepK" by simp
    with l have "rd K (klo + (l - 1)) < ydepK" "rd K (klo + (l + 1)) < ydepK" by blast+
    then have "0 < a" "0 < c" unfolding a_def c_def by linarith+
    then show ?thesis by simp
  qed
  from crra_midpoint[OF p b nn pos sum]
  have m: "a powr p / p + c powr p / p \<le> 2 * (b powr p / p)" .
  have "pow a p = a powr p" "pow b p = b powr p" "pow c p = c powr p"
    using nn b p(2) by (simp_all add: pow_nonneg)
  with m have "pow c p / p - pow b p / p \<le> pow b p / p - pow a p / p" by simp
  then show "pow (ydepK - rd K (klo + (l + 1))) (1 - eta) / (1 - eta)
        - pow (ydepK - rd K (klo + l)) (1 - eta) / (1 - eta)
      \<le> pow (ydepK - rd K (klo + l)) (1 - eta) / (1 - eta)
        - pow (ydepK - rd K (klo + (l - 1))) (1 - eta) / (1 - eta)"
    by (simp only: a_def b_def c_def p_def)
qed

text \<open>Claim C4, amended where two candidates tie. Let the current value function \<open>V0\<close>
  be strictly concave in capital along the bracket for each productivity column; let the bracket
  hold \<open>1 \<le> nksub \<le> 2\<^sup>3\<^sup>0\<close> equally spaced capital points \<open>K[klo + l] = k0 + l\<cdot>step\<close>,
  \<open>step > 0\<close>, all within the resources \<open>ydepK\<close>; let the transition weights and \<open>beta\<close>
  be non-negative, \<open>eta \<ge> 0\<close>, \<open>eta \<noteq> 1\<close>, and let utility be finite at every candidate
  (\<open>eta < 1\<close>, or consumption positive throughout). With
  \<open>obj l = u(ydepK - K[klo + l]) + beta \<cdot> \<Sum>m. P[m\<cdot>nz] \<cdot> V0[l + m\<cdot>nk]\<close> read through the
  pointers \<open>P\<close> and \<open>V0\<close>, \<^verbatim>\<open>grid_max\<close> and \<^verbatim>\<open>binary_max\<close> store the same value, the
  maximum of \<open>obj\<close> over the bracket, and each stores an index of the bracket at which
  \<open>obj\<close> has that value. If the maximum is attained at one candidate only, the two
  indices are the same.\<close>

theorem maximisers_agree:
  fixes K Pa Va :: "real list" and klo nksub nk nz po vo :: int
    and ydepK eta beta k0 step :: real and obj :: "int \<Rightarrow> real"
  assumes "1 \<le> nksub" "nksub \<le> 2 ^ 30"
    and "\<forall>m\<in>{0..nz - 1}. strictly_concave_seq (\<lambda>l. rd Va (vo + (l + m * nk))) nksub"
    and "\<forall>m\<in>{0..nz - 1}. 0 \<le> rd Pa (po + m * nz)"
    and "0 \<le> beta" "0 \<le> eta" "eta \<noteq> 1"
    and "0 < step" "\<forall>l\<in>{0..nksub - 1}. rd K (klo + l) = k0 + real_of_int l * step"
    and "\<forall>l\<in>{0..nksub - 1}. rd K (klo + l) \<le> ydepK"
    and "eta < 1 \<or> (\<forall>l\<in>{0..nksub - 1}. rd K (klo + l) < ydepK)"
    and "obj = (\<lambda>l. (ydepK - rd K (klo + l)) powr (1 - eta) / (1 - eta)
                  + beta * (\<Sum>m = 0..nz - 1. rd Pa (po + m * nz) * rd Va (vo + (l + m * nk))))"
  shows "\<exists>ig ib. grid_max klo nksub nk nz ydepK eta beta K (Pa, po) (Va, vo)
                = (obj ig, real_of_int (klo + ig)) \<and>
            binary_max klo nksub nk nz ydepK eta beta K (Pa, po) (Va, vo)
                = Some (obj ib, real_of_int (klo + ib)) \<and>
            ig \<in> {0..nksub - 1} \<and> ib \<in> {0..nksub - 1} \<and> obj ib = obj ig \<and>
            obj ig = Max (obj ` {0..nksub - 1}) \<and>
            ((\<forall>l\<in>{0..nksub - 1}. obj l = obj ig \<longrightarrow> l = ig) \<longrightarrow> ib = ig)"
proof -
  let ?w = "bellman_w klo nk nz ydepK eta beta K (Pa, po) (Va, vo)"
  have w: "?w l = obj l" if "l \<in> {0..nksub - 1}" for l
  proof -
    from that assms(10) have "0 \<le> ydepK - rd K (klo + l)" by simp
    moreover from assms(7) have "1 - eta \<noteq> 0" by simp
    ultimately have "pow (ydepK - rd K (klo + l)) (1 - eta)
        = (ydepK - rd K (klo + l)) powr (1 - eta)" by (rule pow_nonneg)
    then show ?thesis by (simp add: bellman_w_def Exp_loop_sum assms(12))
  qed
  have v: "\<forall>m\<in>{0..nz - 1}. concave_seq (\<lambda>l. ptr_rd (Va, vo) (l + m * nk)) nksub"
    using assms(3) by (auto intro: strictly_concave_seq_imp)
  have p: "\<forall>m\<in>{0..nz - 1}. 0 \<le> ptr_rd (Pa, po) (m * nz)"
    using assms(4) by simp
  note u = utility_concave[OF assms(6,7,8,9,10,11)]
  note c = objective_concave[OF v p assms(5) u]
  from agreement_on_concave[OF assms(1,2) c]
  obtain ig ib where r:
    "grid_max klo nksub nk nz ydepK eta beta K (Pa, po) (Va, vo) = (?w ig, real_of_int (klo + ig))"
    "binary_max klo nksub nk nz ydepK eta beta K (Pa, po) (Va, vo)
       = Some (?w ib, real_of_int (klo + ib))"
    "ig \<in> {0..nksub - 1}" "ib \<in> {0..nksub - 1}" "?w ib = ?w ig"
    "?w ig = Max (?w ` {0..nksub - 1})" by (elim exE conjE) (rule that; assumption)
  have img: "?w ` {0..nksub - 1} = obj ` {0..nksub - 1}"
    by (rule image_cong[OF refl]) (rule w)
  have e: "obj ib = obj ig" using r(5) w[OF r(3)] w[OF r(4)] by simp
  have uniq: "(\<forall>l\<in>{0..nksub - 1}. obj l = obj ig \<longrightarrow> l = ig) \<longrightarrow> ib = ig"
    using e r(4) by blast
  have g: "grid_max klo nksub nk nz ydepK eta beta K (Pa, po) (Va, vo)
      = (obj ig, real_of_int (klo + ig))"
    using r(1) by (simp only: w[OF r(3)])
  have b: "binary_max klo nksub nk nz ydepK eta beta K (Pa, po) (Va, vo)
      = Some (obj ib, real_of_int (klo + ib))"
    using r(2) by (simp only: w[OF r(4)])
  have mx: "obj ig = Max (obj ` {0..nksub - 1})"
    using r(6) by (simp only: w[OF r(3)] img)
  from g b r(3,4) e mx uniq show ?thesis
    by (intro exI[of _ ig] exI[of _ ib] conjI) assumption+
qed

lemma w_tie:
  "bellman_w 0 4 1 5 2 (1 / 2) [1, 2, 3, 4] ([1], 0) ([1 / 2, 14 / 3, 7, 8], 0) 0 = 0"
  "bellman_w 0 4 1 5 2 (1 / 2) [1, 2, 3, 4] ([1], 0) ([1 / 2, 14 / 3, 7, 8], 0) 1 = 2"
  "bellman_w 0 4 1 5 2 (1 / 2) [1, 2, 3, 4] ([1], 0) ([1 / 2, 14 / 3, 7, 8], 0) 2 = 3"
  "bellman_w 0 4 1 5 2 (1 / 2) [1, 2, 3, 4] ([1], 0) ([1 / 2, 14 / 3, 7, 8], 0) 3 = 3"
  by (simp_all add: bellman_w_def Exp_loop_def pow_def powr_minus_divide)

lemma interval_1_2: "{1..(2::int)} = {1, 2}"
  by auto

lemma grid_tie:
  "grid_max 0 4 4 1 5 2 (1 / 2) [1, 2, 3, 4] ([1], 0) ([1 / 2, 14 / 3, 7, 8], 0) = (3, 2)"
  by (simp add: grid_max_def Let_def upto_rec1 w_tie)

lemma binary_tie:
  "binary_max 0 4 4 1 5 2 (1 / 2) [1, 2, 3, 4] ([1], 0) ([1 / 2, 14 / 3, 7, 8], 0) = Some (3, 3)"
  by (simp add: binary_max_def Let_def binary_max_loop.simps INT_MAX_def w_tie)


lemma interval_0_3: "{0..(3::int)} = {0, 1, 2, 3}"
  by auto

text \<open>Claim C4 as stated fails when two candidates tie for the maximum. With
  \<open>K = [1, 2, 3, 4]\<close>, \<open>ydepK = 5\<close>, \<open>eta = 2\<close>, \<open>beta = 1/2\<close>, one productivity point and
  the strictly concave \<open>V0 = [1/2, 14/3, 7, 8]\<close>, the objective is \<open>0, 2, 3, 3\<close> (itself
  strictly concave). \<^verbatim>\<open>grid_max\<close> keeps the first maximiser, index \<open>2\<close>. In
  \<^verbatim>\<open>binary_max\<close> the loop ends with \<open>kslo = 1\<close>, \<open>kshi = 3\<close>, \<open>w2 = 3 > w1 = 2\<close>; then
  \<open>w1\<close> becomes the objective at \<open>kshi\<close>, the test \<^verbatim>\<open>w2 > w1\<close> is \<open>3 > 3\<close>, and the
  index \<open>kshi = 3\<close> is stored. The same happens through \<^verbatim>\<open>vfStep\<close> at state \<open>3\<close> of
  \<open>cfg_tie\<close>.\<close>

theorem maximisers_tie_counterexample:
  "strictly_concave_seq (\<lambda>l. rd [1 / 2, 14 / 3, 7, 8] l) 4 \<and>
   strictly_concave_seq
     (bellman_w 0 4 1 5 2 (1 / 2) [1, 2, 3, 4] ([1], 0) ([1 / 2, 14 / 3, 7, 8], 0)) 4 \<and>
   grid_max 0 4 4 1 5 2 (1 / 2) [1, 2, 3, 4] ([1], 0) ([1 / 2, 14 / 3, 7, 8], 0) = (3, 2) \<and>
   binary_max 0 4 4 1 5 2 (1 / 2) [1, 2, 3, 4] ([1], 0) ([1 / 2, 14 / 3, 7, 8], 0) = Some (3, 3) \<and>
   vfStep (cfg_tie\<lparr>vf_maxtype := CHR ''g''\<rparr>) 3 ([0, 0, 0, 0], [0, 0, 0, 0])
     = Some ([0, 0, 0, 3], [0, 0, 0, 2]) \<and>
   vfStep cfg_tie 3 ([0, 0, 0, 0], [0, 0, 0, 0]) = Some ([0, 0, 0, 3], [0, 0, 0, 3])"
proof -
  have y: "vfStep_ydepK cfg_tie 3 = 5" "vfStep_ydepK (cfg_tie\<lparr>vf_maxtype := CHR ''g''\<rparr>) 3 = 5"
    by (simp_all add: vfStep_ydepK_def vfStep_ix_def vfStep_jx_def cfg_tie_def pow_def
        powr_half_sqrt)
  have k: "vfStep_khi 5 4 [1, 2, 3, 4] = Some 3"
    by (simp add: vfStep_khi_def binary_val_def)
  have g: "vfStep (cfg_tie\<lparr>vf_maxtype := CHR ''g''\<rparr>) 3 ([0, 0, 0, 0], [0, 0, 0, 0])
     = Some ([0, 0, 0, 3], [0, 0, 0, 2])"
    unfolding vfStep_def y by (simp add: cfg_tie_def k grid_tie vfStep_ix_def vfStep_jx_def)
  have b: "vfStep cfg_tie 3 ([0, 0, 0, 0], [0, 0, 0, 0]) = Some ([0, 0, 0, 3], [0, 0, 0, 3])"
    unfolding vfStep_def y by (simp add: cfg_tie_def k binary_tie vfStep_ix_def vfStep_jx_def)
  have s1: "strictly_concave_seq (\<lambda>l. rd [1 / 2, 14 / 3, 7, 8] l) 4"
    by (simp add: strictly_concave_seq_def interval_1_2)
  have s2: "strictly_concave_seq
     (bellman_w 0 4 1 5 2 (1 / 2) [1, 2, 3, 4] ([1], 0) ([1 / 2, 14 / 3, 7, 8], 0)) 4"
    by (simp add: strictly_concave_seq_def interval_1_2 w_tie)
  from s1 s2 grid_tie binary_tie g b show ?thesis by blast
qed

theorem maximisers_agree_witness:
  "strictly_concave_seq (\<lambda>l. rd [1 / 2, 14 / 3, 7, 15 / 2] l) 4 \<and>
   grid_max 0 4 4 1 5 2 (1 / 2) [1, 2, 3, 4] ([1], 0) ([1 / 2, 14 / 3, 7, 15 / 2], 0) = (3, 2) \<and>
   binary_max 0 4 4 1 5 2 (1 / 2) [1, 2, 3, 4] ([1], 0) ([1 / 2, 14 / 3, 7, 15 / 2], 0) = Some (3, 2)"
proof -
  define obj :: "int \<Rightarrow> real" where
    "obj = (\<lambda>l. (5 - rd [1, 2, 3, 4] (0 + l)) powr (1 - 2) / (1 - 2)
               + 1 / 2 * (\<Sum>m = 0..1 - 1. rd [1] (0 + m * 1)
                            * rd [1 / 2, 14 / 3, 7, 15 / 2] (0 + (l + m * 4))))"
  have o: "obj 0 = 0" "obj 1 = 2" "obj 2 = 3" "obj 3 = 11 / 4"
    by (simp_all add: obj_def powr_minus_divide)
  have s: "strictly_concave_seq (\<lambda>l. rd [1 / 2, 14 / 3, 7, 15 / 2] l) 4"
    by (simp add: strictly_concave_seq_def interval_1_2)
  have h: "(1::int) \<le> 4" "(4::int) \<le> 2 ^ 30"
    "\<forall>m\<in>{0..(1::int) - 1}.
        strictly_concave_seq (\<lambda>l. rd [1 / 2, 14 / 3, 7, 15 / 2] (0 + (l + m * 4))) 4"
    "\<forall>m\<in>{0..(1::int) - 1}. (0::real) \<le> rd [1] (0 + m * 1)"
    "(0::real) \<le> 1 / 2" "(0::real) \<le> 2" "(2::real) \<noteq> 1" "(0::real) < 1"
    "\<forall>l\<in>{0..(4::int) - 1}. rd [1, 2, 3, 4] (0 + l) = 1 + real_of_int l * 1"
    "\<forall>l\<in>{0..(4::int) - 1}. rd [1, 2, 3, 4] (0 + l) \<le> (5::real)"
    "(2::real) < 1 \<or> (\<forall>l\<in>{0..(4::int) - 1}. rd [1, 2, 3, 4] (0 + l) < (5::real))"
    using s by (simp_all add: interval_0_3)
  from maximisers_agree[OF h obj_def] obtain ig ib where
    r: "grid_max 0 4 4 1 5 2 (1 / 2) [1, 2, 3, 4] ([1], 0) ([1 / 2, 14 / 3, 7, 15 / 2], 0)
          = (obj ig, real_of_int (0 + ig))"
       "binary_max 0 4 4 1 5 2 (1 / 2) [1, 2, 3, 4] ([1], 0) ([1 / 2, 14 / 3, 7, 15 / 2], 0)
          = Some (obj ib, real_of_int (0 + ib))"
       "ig \<in> {0..4 - 1}" "obj ig = Max (obj ` {0..4 - 1})"
       "(\<forall>l\<in>{0..4 - 1}. obj l = obj ig \<longrightarrow> l = ig) \<longrightarrow> ib = ig"
    by blast
  have "Max (obj ` {0..4 - 1}) = 3" by (simp add: interval_0_3 o)
  with r(3,4) have ig: "ig = 2" by (auto simp add: interval_0_3 o)
  have "\<forall>l\<in>{0..4 - 1}. obj l = obj ig \<longrightarrow> l = ig"
    unfolding ig by (simp add: interval_0_3 o)
  with r(5) have "ib = 2" using ig by simp
  with r(1,2) ig s show ?thesis by (simp add: o)
qed

end
